theory Spec2Isabelle
  imports Complex_Main "HOL-Library.List_Lexorder" "HOL-Library.Char_ord"
begin

section \<open>Data model\<close>

text \<open>
  The dashboard component \<^verbatim>\<open>InventoryHealthPageEnhanced.jsx\<close> works on plain JavaScript
  objects decoded from the \<^verbatim>\<open>/latest\<close> response. A JavaScript Number is kept at the
  precision the code observes: a finite Number is its exact rational value (every double is a
  rational), next to the two infinities and NaN. A property that may be missing on the object
  (the code guards it with \<^verbatim>\<open>?.\<close> or \<^verbatim>\<open>||\<close>) is an \<open>option\<close>, \<open>None\<close> standing for
  \<^verbatim>\<open>undefined\<close>. Strings are byte strings: identifiers are ASCII, and the only other text
  the code produces is the glyph for infinity, kept in its UTF-8 encoding.
\<close>

datatype jsnum = Fin rat | PInf | NInf | NaN

record PredictionRecord =
  sku_id :: string
  store_id :: string
  current_stock :: jsnum
  avg_daily_sales :: "jsnum option"
  days_to_stockout :: "jsnum option"
  status :: string
  recommended_reorder_quantity :: "jsnum option"
  category :: "string option"
  city :: "string option"
  last_updated :: "string option"

datatype sort_field = SkuId | StoreId | DaysToStockout | RecommendedReorderQuantity

datatype sort_order = Asc | Desc

text \<open>
  The \<^verbatim>\<open>useState\<close> cells of the component that the derived values read. The filter
  selectors hold the string \<^verbatim>\<open>"ALL"\<close> or an option value of the dropdown.
\<close>

record ui_state =
  records :: "PredictionRecord list"
  storeFilter :: string
  categoryFilter :: string
  search :: string
  showCriticalOnly :: bool
  sortField :: sort_field
  sortOrder :: sort_order

section \<open>JavaScript numbers and strings\<close>

text \<open>\<^verbatim>\<open>ToNumber\<close> of a property value: \<^verbatim>\<open>undefined\<close> converts to NaN.\<close>

fun toNumber :: "jsnum option \<Rightarrow> jsnum" where
  "toNumber None = NaN"
| "toNumber (Some v) = v"

text \<open>
  The binary \<^verbatim>\<open>-\<close> on Numbers. The difference of two finite doubles is rounded, but it
  is zero exactly when the operands are equal and has the sign of the exact difference
  otherwise; the code only passes it to \<^verbatim>\<open>sort\<close>, which reads the sign.
\<close>

fun js_minus :: "jsnum \<Rightarrow> jsnum \<Rightarrow> jsnum" where
  "js_minus NaN _ = NaN"
| "js_minus _ NaN = NaN"
| "js_minus (Fin a) (Fin b) = Fin (a - b)"
| "js_minus (Fin _) PInf = NInf"
| "js_minus (Fin _) NInf = PInf"
| "js_minus PInf PInf = NaN"
| "js_minus PInf _ = PInf"
| "js_minus NInf NInf = NaN"
| "js_minus NInf _ = NInf"

fun is_positive :: "jsnum \<Rightarrow> bool" where
  "is_positive (Fin q) = (0 < q)"
| "is_positive PInf = True"
| "is_positive _ = False"

fun is_negative :: "jsnum \<Rightarrow> bool" where
  "is_negative (Fin q) = (q < 0)"
| "is_negative NInf = True"
| "is_negative _ = False"

fun is_zero :: "jsnum \<Rightarrow> bool" where
  "is_zero (Fin q) = (q = 0)"
| "is_zero _ = False"

text \<open>
  \<^verbatim>\<open>String.prototype.toLowerCase\<close> and \<^verbatim>\<open>String.prototype.trim\<close> on ASCII text: the
  letters A to Z map to a to z; white space is TAB, LF, VT, FF, CR and SPACE. The host also
  lowers the cased letters outside ASCII and strips the white space outside ASCII (U+00A0,
  U+FEFF, U+2028 and the like); a search term or a \<^verbatim>\<open>sku_id\<close> with such characters is
  outside what the two definitions describe.
\<close>

definition lower_char :: "char \<Rightarrow> char" where
  "lower_char c =
     (let n = (of_char c :: nat) in if 65 \<le> n \<and> n \<le> 90 then char_of (n + 32) else c)"

definition toLowerCase :: "string \<Rightarrow> string" where
  "toLowerCase s = map lower_char s"

definition is_white_space :: "char \<Rightarrow> bool" where
  "is_white_space c = ((of_char c :: nat) \<in> {9, 10, 11, 12, 13, 32})"

definition trim :: "string \<Rightarrow> string" where
  "trim s = rev (dropWhile is_white_space (rev (dropWhile is_white_space s)))"

text \<open>\<^verbatim>\<open>s.includes(t)\<close>: \<open>t\<close> occurs in \<open>s\<close> as a contiguous run.\<close>

fun startsWith :: "string \<Rightarrow> string \<Rightarrow> bool" where
  "startsWith _ [] = True"
| "startsWith [] (_ # _) = False"
| "startsWith (x # xs) (y # ys) = (x = y \<and> startsWith xs ys)"

fun str_includes :: "string \<Rightarrow> string \<Rightarrow> bool" where
  "str_includes [] t = (t = [])"
| "str_includes (x # xs) t = (startsWith (x # xs) t \<or> str_includes xs t)"

section \<open>Array.prototype.sort\<close>

text \<open>
  \<^verbatim>\<open>SortCompare\<close> of ECMA-262: the value the comparison function returns, with NaN read
  as \<open>+0\<close>.
\<close>

definition sortCompare :: "('a \<Rightarrow> 'a \<Rightarrow> jsnum) \<Rightarrow> 'a \<Rightarrow> 'a \<Rightarrow> jsnum" where
  "sortCompare cmp x y = (case cmp x y of NaN \<Rightarrow> Fin 0 | v \<Rightarrow> v)"

text \<open>
  The sort is stable (ECMA-262 since ES2019). For a comparison function that is consistent on
  the elements the stably sorted arrangement is unique, whatever the engine; insertion from
  the right computes it.
\<close>

fun insort_by :: "('a \<Rightarrow> 'a \<Rightarrow> jsnum) \<Rightarrow> 'a \<Rightarrow> 'a list \<Rightarrow> 'a list" where
  "insort_by cmp x [] = [x]"
| "insort_by cmp x (y # ys) =
     (if is_positive (sortCompare cmp x y) then y # insort_by cmp x ys else x # y # ys)"

definition stableSort :: "('a \<Rightarrow> 'a \<Rightarrow> jsnum) \<Rightarrow> 'a list \<Rightarrow> 'a list" where
  "stableSort cmp xs = foldr (insort_by cmp) xs []"

text \<open>
  When the comparison function is not consistent the standard leaves the order to the engine.
  The comparison function of this component is not consistent on records that lack the numeric
  sort field, so the engine's algorithm is part of what the page shows. The engine modelled is
  V8 (Chrome, Node.js), whose \<^verbatim>\<open>Array.prototype.sort\<close> is TimSort
  (\<^verbatim>\<open>third_party/v8/builtins/array-sort.tq\<close>). On an array of fewer than 64 elements
  \<^verbatim>\<open>ComputeMinRunLength\<close> returns the length of the array, and the sort is the two steps
  below: \<^verbatim>\<open>CountAndMakeRun\<close> on the whole array, then \<^verbatim>\<open>BinaryInsertionSort\<close> of the
  elements after the run. Every test of an order is \<^verbatim>\<open>order < 0\<close> on the value of
  \<open>sortCompare\<close>.

  \<^verbatim>\<open>CountAndMakeRun\<close>: the first two elements decide whether the run descends
  (\<^verbatim>\<open>order < 0\<close>); the run goes on while the next element compared with the one before it
  keeps that direction (\<^verbatim>\<open>order < 0\<close> when descending, \<^verbatim>\<open>order >= 0\<close> otherwise); a
  descending run is reversed in place.
\<close>

fun ascendingRun :: "('a \<Rightarrow> 'a \<Rightarrow> jsnum) \<Rightarrow> 'a \<Rightarrow> 'a list \<Rightarrow> nat" where
  "ascendingRun cmp previousElement [] = 0"
| "ascendingRun cmp previousElement (currentElement # rest) =
     (if is_negative (sortCompare cmp currentElement previousElement) then 0
      else Suc (ascendingRun cmp currentElement rest))"

fun descendingRun :: "('a \<Rightarrow> 'a \<Rightarrow> jsnum) \<Rightarrow> 'a \<Rightarrow> 'a list \<Rightarrow> nat" where
  "descendingRun cmp previousElement [] = 0"
| "descendingRun cmp previousElement (currentElement # rest) =
     (if is_negative (sortCompare cmp currentElement previousElement)
      then Suc (descendingRun cmp currentElement rest)
      else 0)"

definition countAndMakeRun :: "('a \<Rightarrow> 'a \<Rightarrow> jsnum) \<Rightarrow> 'a list \<Rightarrow> nat \<times> 'a list" where
  "countAndMakeRun cmp work =
     (case work of
        elementHigh # elementLow # rest \<Rightarrow>
          if is_negative (sortCompare cmp elementLow elementHigh)
          then (let runLength = 2 + descendingRun cmp elementLow rest
                in (runLength, rev (take runLength work) @ drop runLength work))
          else (2 + ascendingRun cmp elementLow rest, work)
      | _ \<Rightarrow> (length work, work))"

text \<open>
  \<^verbatim>\<open>BinaryInsertionSort\<close>: each element after the run is the pivot of a binary search in
  the elements before it, \<^verbatim>\<open>if (order < 0) right = mid; else left = mid + 1\<close>, and is put
  at the position the search ends on, the elements from there on moving up by one.
\<close>

function binarySearch :: "('a \<Rightarrow> 'a \<Rightarrow> jsnum) \<Rightarrow> 'a \<Rightarrow> 'a list \<Rightarrow> nat \<Rightarrow> nat \<Rightarrow> nat" where
  "binarySearch cmp pivot work left right =
     (if left < right
      then (let mid = left + (right - left) div 2
            in if is_negative (sortCompare cmp pivot (work ! mid))
               then binarySearch cmp pivot work left mid
               else binarySearch cmp pivot work (mid + 1) right)
      else left)"
  by pat_completeness auto
termination
  by (relation "measure (\<lambda>(cmp, pivot, work, left, right). right - left)") auto

declare binarySearch.simps [simp del]

definition binaryInsert :: "('a \<Rightarrow> 'a \<Rightarrow> jsnum) \<Rightarrow> 'a list \<Rightarrow> 'a \<Rightarrow> 'a list" where
  "binaryInsert cmp run pivot =
     (let left = binarySearch cmp pivot run 0 (length run)
      in take left run @ pivot # drop left run)"

definition binaryInsertionSort ::
  "('a \<Rightarrow> 'a \<Rightarrow> jsnum) \<Rightarrow> 'a list \<Rightarrow> 'a list \<Rightarrow> 'a list" where
  "binaryInsertionSort cmp run rest = foldl (binaryInsert cmp) run rest"

definition timSortShort :: "('a \<Rightarrow> 'a \<Rightarrow> jsnum) \<Rightarrow> 'a list \<Rightarrow> 'a list" where
  "timSortShort cmp xs =
     (if length xs < 2 then xs
      else (case countAndMakeRun cmp xs of
              (runLength, work) \<Rightarrow>
                binaryInsertionSort cmp (take runLength work) (drop runLength work)))"

text \<open>
  \<^verbatim>\<open>array.sort(cmp)\<close>. From 64 elements on V8 cuts the array into several runs and merges
  them; with a consistent comparison function the outcome is the stable arrangement, and that
  is what stands for it here. So the definition is V8's result for every array of fewer than
  64 elements, and every engine's result for a consistent comparison function.
\<close>

definition array_sort :: "('a \<Rightarrow> 'a \<Rightarrow> jsnum) \<Rightarrow> 'a list \<Rightarrow> 'a list" where
  "array_sort cmp xs = (if length xs < 64 then timSortShort cmp xs else stableSort cmp xs)"

text \<open>
  A consistent comparator for a set of values, as ECMA-262 lists the requirements:
  \<open>=\<close> is reflexive, symmetric and transitive, \<open><\<close> and \<open>>\<close> are transitive.
\<close>

definition consistent_comparator :: "('a \<Rightarrow> 'a \<Rightarrow> jsnum) \<Rightarrow> 'a set \<Rightarrow> bool" where
  "consistent_comparator cmp S =
     (\<forall>a\<in>S. \<forall>b\<in>S. \<forall>c\<in>S.
        is_zero (sortCompare cmp a a) \<and>
        (is_zero (sortCompare cmp a b) \<longrightarrow> is_zero (sortCompare cmp b a)) \<and>
        (is_zero (sortCompare cmp a b) \<and> is_zero (sortCompare cmp b c)
           \<longrightarrow> is_zero (sortCompare cmp a c)) \<and>
        (is_negative (sortCompare cmp a b) \<and> is_negative (sortCompare cmp b c)
           \<longrightarrow> is_negative (sortCompare cmp a c)) \<and>
        (is_positive (sortCompare cmp a b) \<and> is_positive (sortCompare cmp b c)
           \<longrightarrow> is_positive (sortCompare cmp a c)))"

section \<open>The filter and sort effect\<close>

text \<open>
  The four conditional \<^verbatim>\<open>data = data.filter(...)\<close> statements of the effect. Each has a
  guard on the criteria and a predicate on a record.
\<close>

definition storeActive :: "ui_state \<Rightarrow> bool" where
  "storeActive s = (storeFilter s \<noteq> ''ALL'')"

definition storeMatches :: "ui_state \<Rightarrow> PredictionRecord \<Rightarrow> bool" where
  "storeMatches s r = (store_id r = storeFilter s)"

definition categoryActive :: "ui_state \<Rightarrow> bool" where
  "categoryActive s = (categoryFilter s \<noteq> ''ALL'')"

definition categoryMatches :: "ui_state \<Rightarrow> PredictionRecord \<Rightarrow> bool" where
  "categoryMatches s r = (category r = Some (categoryFilter s))"

definition criticalActive :: "ui_state \<Rightarrow> bool" where
  "criticalActive s = showCriticalOnly s"

definition criticalMatches :: "ui_state \<Rightarrow> PredictionRecord \<Rightarrow> bool" where
  "criticalMatches s r = (status r = ''Critical'')"

definition searchActive :: "ui_state \<Rightarrow> bool" where
  "searchActive s = (trim (search s) \<noteq> [])"

definition searchMatches :: "ui_state \<Rightarrow> PredictionRecord \<Rightarrow> bool" where
  "searchMatches s r =
     (let term = toLowerCase (trim (search s)) in str_includes (toLowerCase (sku_id r)) term)"

definition storeStep :: "ui_state \<Rightarrow> PredictionRecord list \<Rightarrow> PredictionRecord list" where
  "storeStep s data = (if storeActive s then filter (storeMatches s) data else data)"

definition categoryStep :: "ui_state \<Rightarrow> PredictionRecord list \<Rightarrow> PredictionRecord list" where
  "categoryStep s data = (if categoryActive s then filter (categoryMatches s) data else data)"

definition criticalStep :: "ui_state \<Rightarrow> PredictionRecord list \<Rightarrow> PredictionRecord list" where
  "criticalStep s data = (if criticalActive s then filter (criticalMatches s) data else data)"

definition searchStep :: "ui_state \<Rightarrow> PredictionRecord list \<Rightarrow> PredictionRecord list" where
  "searchStep s data = (if searchActive s then filter (searchMatches s) data else data)"

text \<open>The array \<^verbatim>\<open>data\<close> when the effect reaches the sort.\<close>

definition applyFilters :: "ui_state \<Rightarrow> PredictionRecord list" where
  "applyFilters s = searchStep s (criticalStep s (categoryStep s (storeStep s (records s))))"

text \<open>The four statements, in the order the effect runs them.\<close>

definition filterSteps :: "ui_state \<Rightarrow> (PredictionRecord list \<Rightarrow> PredictionRecord list) list" where
  "filterSteps s = [storeStep s, categoryStep s, criticalStep s, searchStep s]"

text \<open>
  The conjunction the four statements amount to: a record stays when it passes every filter
  whose guard is on.
\<close>

definition passesFilters :: "ui_state \<Rightarrow> PredictionRecord \<Rightarrow> bool" where
  "passesFilters s r =
     ((if storeActive s then storeMatches s r else True) \<and>
      (if categoryActive s then categoryMatches s r else True) \<and>
      (if criticalActive s then criticalMatches s r else True) \<and>
      (if searchActive s then searchMatches s r else True))"

text \<open>
  The comparison function handed to \<^verbatim>\<open>data.sort\<close>. \<^verbatim>\<open>typeof aVal === "string"\<close> holds
  exactly for the fields \<^verbatim>\<open>sku_id\<close> and \<^verbatim>\<open>store_id\<close>, which are compared with
  \<^verbatim>\<open>localeCompare\<close>; its collation belongs to the host, so it is the parameter \<open>lc\<close>. The
  two numeric fields are subtracted, a missing value converting to NaN.
\<close>

fun compareFn ::
  "(string \<Rightarrow> string \<Rightarrow> int) \<Rightarrow> sort_field \<Rightarrow> sort_order \<Rightarrow>
     PredictionRecord \<Rightarrow> PredictionRecord \<Rightarrow> jsnum" where
  "compareFn lc SkuId ord a b =
     (if ord = Asc then Fin (of_int (lc (sku_id a) (sku_id b)))
      else Fin (of_int (lc (sku_id b) (sku_id a))))"
| "compareFn lc StoreId ord a b =
     (if ord = Asc then Fin (of_int (lc (store_id a) (store_id b)))
      else Fin (of_int (lc (store_id b) (store_id a))))"
| "compareFn lc DaysToStockout ord a b =
     (let aVal = toNumber (days_to_stockout a); bVal = toNumber (days_to_stockout b)
      in if ord = Asc then js_minus aVal bVal else js_minus bVal aVal)"
| "compareFn lc RecommendedReorderQuantity ord a b =
     (let aVal = toNumber (recommended_reorder_quantity a);
          bVal = toNumber (recommended_reorder_quantity b)
      in if ord = Asc then js_minus aVal bVal else js_minus bVal aVal)"

definition filteredView :: "(string \<Rightarrow> string \<Rightarrow> int) \<Rightarrow> ui_state \<Rightarrow> PredictionRecord list" where
  "filteredView lc s = array_sort (compareFn lc (sortField s) (sortOrder s)) (applyFilters s)"

text \<open>
  What makes the comparison function a consistent comparator: \<^verbatim>\<open>localeCompare\<close> is one
  on all strings (ECMA-262 requires it of every implementation), and a record that reaches the
  comparator on a numeric field carries a number there.
\<close>

definition consistent_localeCompare :: "(string \<Rightarrow> string \<Rightarrow> int) \<Rightarrow> bool" where
  "consistent_localeCompare lc = consistent_comparator (\<lambda>a b. Fin (of_int (lc a b))) UNIV"

fun sortKey :: "sort_field \<Rightarrow> PredictionRecord \<Rightarrow> jsnum" where
  "sortKey DaysToStockout r = toNumber (days_to_stockout r)"
| "sortKey RecommendedReorderQuantity r = toNumber (recommended_reorder_quantity r)"
| "sortKey _ r = Fin 0"

definition sortable :: "sort_field \<Rightarrow> PredictionRecord \<Rightarrow> bool" where
  "sortable f r = (sortKey f r \<noteq> NaN)"

text \<open>A collation to evaluate with: the order of the character codes.\<close>

definition codeUnitCompare :: "string \<Rightarrow> string \<Rightarrow> int" where
  "codeUnitCompare a b = (if a < b then - 1 else if a = b then 0 else 1)"

section \<open>The effect on the arrays it touches\<close>

text \<open>
  \<^verbatim>\<open>sort\<close> reorders its array in place, so whether the effect leaves \<^verbatim>\<open>records\<close> alone
  depends on which array each statement works on. Arrays live in a store and are named by
  their index in it: \<^verbatim>\<open>[...records]\<close> and \<^verbatim>\<open>filter\<close> make a new array, \<^verbatim>\<open>sort\<close> writes
  to the one it is called on. The record objects are shared between the arrays; no statement
  of the effect assigns to a property of one.
\<close>

type_synonym array_store = "PredictionRecord list list"

definition readArray :: "array_store \<Rightarrow> nat \<Rightarrow> PredictionRecord list option" where
  "readArray h a = (if a < length h then Some (h ! a) else None)"

definition allocArray :: "PredictionRecord list \<Rightarrow> array_store \<Rightarrow> nat \<times> array_store" where
  "allocArray xs h = (length h, h @ [xs])"

definition writeArray :: "nat \<Rightarrow> PredictionRecord list \<Rightarrow> array_store \<Rightarrow> array_store" where
  "writeArray a xs h = h[a := xs]"

text \<open>\<^verbatim>\<open>let data = [...records]\<close>.\<close>

definition spreadCopy :: "array_store \<Rightarrow> nat \<Rightarrow> (nat \<times> array_store) option" where
  "spreadCopy h a = (case readArray h a of None \<Rightarrow> None | Some xs \<Rightarrow> Some (allocArray xs h))"

text \<open>\<^verbatim>\<open>if (active) { data = data.filter(p) }\<close>: \<^verbatim>\<open>data\<close> names a new array, or stays.\<close>

definition filterInto ::
  "bool \<Rightarrow> (PredictionRecord \<Rightarrow> bool) \<Rightarrow> nat \<times> array_store \<Rightarrow> (nat \<times> array_store) option" where
  "filterInto active p dh =
     (case dh of (d, h) \<Rightarrow>
        if active
        then (case readArray h d of None \<Rightarrow> None | Some xs \<Rightarrow> Some (allocArray (filter p xs) h))
        else Some (d, h))"

text \<open>\<^verbatim>\<open>data.sort(cmp)\<close>.\<close>

definition sortInPlace ::
  "(PredictionRecord \<Rightarrow> PredictionRecord \<Rightarrow> jsnum) \<Rightarrow> nat \<times> array_store
     \<Rightarrow> (nat \<times> array_store) option" where
  "sortInPlace cmp dh =
     (case dh of (d, h) \<Rightarrow>
        (case readArray h d of
           None \<Rightarrow> None
         | Some xs \<Rightarrow> Some (d, writeArray d (array_sort cmp xs) h)))"

text \<open>
  The effect, from the array \<^verbatim>\<open>records\<close> names to the array handed to
  \<^verbatim>\<open>setFiltered\<close>, with the store it leaves behind.
\<close>

definition filterEffect ::
  "(string \<Rightarrow> string \<Rightarrow> int) \<Rightarrow> ui_state \<Rightarrow> array_store \<Rightarrow> nat
     \<Rightarrow> (nat \<times> array_store) option" where
  "filterEffect lc s h recordsRef =
     Option.bind (spreadCopy h recordsRef) (\<lambda>dh0.
     Option.bind (filterInto (storeActive s) (storeMatches s) dh0) (\<lambda>dh1.
     Option.bind (filterInto (categoryActive s) (categoryMatches s) dh1) (\<lambda>dh2.
     Option.bind (filterInto (criticalActive s) (criticalMatches s) dh2) (\<lambda>dh3.
     Option.bind (filterInto (searchActive s) (searchMatches s) dh3) (\<lambda>dh4.
     sortInPlace (compareFn lc (sortField s) (sortOrder s)) dh4)))))"

section \<open>Aggregates of the full snapshot\<close>

text \<open>
  \<^verbatim>\<open>records.filter((r) => r.status === "Critical").length\<close> and its two siblings, computed
  at every render from the \<^verbatim>\<open>records\<close> state cell.
\<close>

definition countCritical :: "ui_state \<Rightarrow> nat" where
  "countCritical s = length (filter (\<lambda>r. status r = ''Critical'') (records s))"

definition countWarning :: "ui_state \<Rightarrow> nat" where
  "countWarning s = length (filter (\<lambda>r. status r = ''Warning'') (records s))"

definition countSafe :: "ui_state \<Rightarrow> nat" where
  "countSafe s = length (filter (\<lambda>r. status r = ''Safe'') (records s))"

text \<open>
  \<^verbatim>\<open>criticalByStore\<close> is built by \<^verbatim>\<open>reduce\<close> on the object literal \<^verbatim>\<open>{}\<close>, an ordinary
  object whose prototype is \<^verbatim>\<open>Object.prototype\<close>. The object is kept as the list of its own
  properties in the order they were created; the order \<^verbatim>\<open>Object.entries\<close> lists them in
  (names that are array indices first, ascending) is read by the bar chart only, which is not
  part of this development. A value the code stores is a Number (a count) or, once
  \<^verbatim>\<open>+\<close> has met a non-number, a String.
\<close>

datatype propval = PNumber nat | PString string

type_synonym js_object = "(string \<times> propval) list"

text \<open>
  The property names every ordinary object inherits from \<^verbatim>\<open>Object.prototype\<close>, each with
  the string its inherited value converts to under \<^verbatim>\<open>+\<close>. The values are built-in
  functions, printed as V8 prints them (the standard fixes the shape, not the spacing);
  \<^verbatim>\<open>__proto__\<close> reads the prototype object itself.
\<close>

definition objectPrototype :: "(string \<times> string) list" where
  "objectPrototype =
     [(''constructor'', ''function Object() { [native code] }''),
      (''hasOwnProperty'', ''function hasOwnProperty() { [native code] }''),
      (''isPrototypeOf'', ''function isPrototypeOf() { [native code] }''),
      (''propertyIsEnumerable'', ''function propertyIsEnumerable() { [native code] }''),
      (''toLocaleString'', ''function toLocaleString() { [native code] }''),
      (''toString'', ''function toString() { [native code] }''),
      (''valueOf'', ''function valueOf() { [native code] }''),
      (''__defineGetter__'', ''function __defineGetter__() { [native code] }''),
      (''__defineSetter__'', ''function __defineSetter__() { [native code] }''),
      (''__lookupGetter__'', ''function __lookupGetter__() { [native code] }''),
      (''__lookupSetter__'', ''function __lookupSetter__() { [native code] }''),
      (''__proto__'', ''[object Object]'')]"

text \<open>
  \<^verbatim>\<open>(acc[k] || 0) + 1\<close>. The read \<^verbatim>\<open>acc[k]\<close> finds an own property first and an
  inherited one next; a value that is not falsy goes to \<^verbatim>\<open>+\<close> as it is, and \<^verbatim>\<open>+\<close>
  with a string, a function or an object on the left concatenates.
\<close>

definition increment :: "js_object \<Rightarrow> string \<Rightarrow> propval" where
  "increment acc k =
     (case map_of acc k of
        Some (PNumber n) \<Rightarrow> PNumber (n + 1)
      | Some (PString t) \<Rightarrow> (if t = [] then PNumber 1 else PString (t @ ''1''))
      | None \<Rightarrow>
          (case map_of objectPrototype k of
             Some t \<Rightarrow> PString (t @ ''1'')
           | None \<Rightarrow> PNumber 1))"

fun setOwn :: "string \<Rightarrow> propval \<Rightarrow> js_object \<Rightarrow> js_object" where
  "setOwn k v [] = [(k, v)]"
| "setOwn k v (p # ps) = (if fst p = k then (k, v) # ps else p # setOwn k v ps)"

text \<open>
  \<^verbatim>\<open>acc[k] = v\<close>. The name \<^verbatim>\<open>__proto__\<close> is an accessor of the prototype: its setter
  drops a value that is not an object, and no own property is made.
\<close>

definition assign :: "js_object \<Rightarrow> string \<Rightarrow> propval \<Rightarrow> js_object" where
  "assign acc k v = (if k = ''__proto__'' then acc else setOwn k v acc)"

definition criticalByStore :: "ui_state \<Rightarrow> js_object" where
  "criticalByStore s =
     foldl (\<lambda>acc r. if status r = ''Critical''
                     then assign acc (store_id r) (increment acc (store_id r)) else acc)
       [] (records s)"

text \<open>
  The number of Critical records at a store, and what it is for an object to hold exactly
  the counts \<open>c\<close>: one own property per store with a positive count, its value the count.
\<close>

definition criticalAt :: "string \<Rightarrow> PredictionRecord list \<Rightarrow> nat" where
  "criticalAt k xs = length (filter (\<lambda>r. status r = ''Critical'' \<and> store_id r = k) xs)"

definition counts :: "(string \<Rightarrow> nat) \<Rightarrow> js_object \<Rightarrow> bool" where
  "counts c acc = (distinct (map fst acc) \<and>
     (\<forall>k. map_of acc k = (if c k = 0 then None else Some (PNumber (c k)))))"

text \<open>
  \<^verbatim>\<open>records.filter(...).sort((a, b) => b.days_to_stockout - a.days_to_stockout).slice(0, 5)\<close>.
\<close>

definition topCritical :: "ui_state \<Rightarrow> PredictionRecord list" where
  "topCritical s =
     take 5 (array_sort
       (\<lambda>a b. js_minus (toNumber (days_to_stockout b)) (toNumber (days_to_stockout a)))
       (filter (\<lambda>r. status r = ''Critical'') (records s)))"

section \<open>CSV export\<close>

text \<open>Decimal digits of a natural number, most significant first.\<close>

definition digitChar :: "nat \<Rightarrow> char" where
  "digitChar d = char_of (48 + d)"

fun digitsOf :: "nat \<Rightarrow> string" where
  "digitsOf n = (if n < 10 then [digitChar n] else digitsOf (n div 10) @ [digitChar (n mod 10)])"

declare digitsOf.simps [simp del]

text \<open>
  \<^verbatim>\<open>Number.prototype.toFixed(f)\<close> of ECMA-262 on a finite value \<open>0 \<le> x < 10\<^sup>2\<^sup>1\<close>: \<open>n\<close> is
  the integer nearest to \<open>x * 10\<^sup>f\<close>, the larger one of two; its digits are padded on the
  left with zeros to \<open>f + 1\<close> characters, and the point goes before the last \<open>f\<close>.
\<close>

definition fixedDigits :: "nat \<Rightarrow> rat \<Rightarrow> string" where
  "fixedDigits f x =
     (let n = nat \<lfloor>x * 10 ^ f + 1 / 2\<rfloor>;
          m = digitsOf n
      in if f = 0 then m
         else (let k = length m;
                   m' = (if k \<le> f then replicate (f + 1 - k) (CHR ''0'') @ m else m);
                   k' = length m'
               in take (k' - f) m' @ ''.'' @ drop (k' - f) m'))"

text \<open>
  The whole of \<^verbatim>\<open>toFixed\<close>: a value that is not finite, or whose magnitude reaches
  \<open>10\<^sup>2\<^sup>1\<close>, is printed by \<^verbatim>\<open>Number::toString\<close> instead. That function prints the
  shortest decimal that reads back as the same double, which the exact value alone does not
  determine, so it is the parameter \<open>ns\<close> here and in the export.
\<close>

fun toFixed :: "(jsnum \<Rightarrow> string) \<Rightarrow> nat \<Rightarrow> jsnum \<Rightarrow> string" where
  "toFixed ns f (Fin x) =
     (let s = (if x < 0 then ''-'' else []); a = \<bar>x\<bar>
      in if 10 ^ 21 \<le> a then s @ ns (Fin a) else s @ fixedDigits f a)"
| "toFixed ns f v = ns v"

text \<open>\<^verbatim>\<open>s || d\<close> on a string, and the falsy Numbers.\<close>

definition orDefault :: "string \<Rightarrow> string \<Rightarrow> string" where
  "orDefault s d = (if s = [] then d else s)"

fun falsyNumber :: "jsnum \<Rightarrow> bool" where
  "falsyNumber (Fin q) = (q = 0)"
| "falsyNumber NaN = True"
| "falsyNumber _ = False"

definition csvHeaders :: "string list" where
  "csvHeaders =
     [''SKU'', ''Store'', ''Current Stock'', ''Avg Daily Sales'', ''Days to Stockout'',
      ''Status'', ''Reorder Qty'', ''Category'', ''City'']"

text \<open>U+221E, in the UTF-8 bytes the \<^verbatim>\<open>Blob\<close> stores.\<close>

definition infinityGlyph :: string where
  "infinityGlyph = [CHR 0xE2, CHR 0x88, CHR 0x9E]"

text \<open>
  One element of \<^verbatim>\<open>rows\<close>, each cell already converted as the template literal of the
  last step converts it.
\<close>

definition csvRow :: "(jsnum \<Rightarrow> string) \<Rightarrow> PredictionRecord \<Rightarrow> string list" where
  "csvRow ns r =
     [sku_id r,
      store_id r,
      ns (current_stock r),
      (case avg_daily_sales r of
         None \<Rightarrow> ''0''
       | Some v \<Rightarrow> orDefault (toFixed ns 2 v) ''0''),
      (if days_to_stockout r = Some PInf then infinityGlyph
       else (case days_to_stockout r of
               None \<Rightarrow> ''0''
             | Some v \<Rightarrow> orDefault (toFixed ns 1 v) ''0'')),
      status r,
      (case recommended_reorder_quantity r of
         None \<Rightarrow> ''0''
       | Some v \<Rightarrow> (if falsyNumber v then ''0'' else ns v)),
      (case category r of None \<Rightarrow> ''-'' | Some c \<Rightarrow> orDefault c ''-''),
      (case city r of None \<Rightarrow> ''-'' | Some c \<Rightarrow> orDefault c ''-'')]"

fun join :: "string \<Rightarrow> string list \<Rightarrow> string" where
  "join sep [] = []"
| "join sep [x] = x"
| "join sep (x # y # ys) = x @ sep @ join sep (y # ys)"

definition quoteCell :: "string \<Rightarrow> string" where
  "quoteCell cell = [CHR 0x22] @ cell @ [CHR 0x22]"

definition csvLine :: "string list \<Rightarrow> string" where
  "csvLine row = join '','' (map quoteCell row)"

definition csvText :: "string list list \<Rightarrow> string" where
  "csvText table = join [CHR 0x0A] (map csvLine table)"

text \<open>
  What a call of \<^verbatim>\<open>downloadCSV\<close> does to the page: it raises the alert box, or it hands
  the browser a file of the given name and content.
\<close>

datatype export_effect = Alert string | Download string string

definition downloadCSV ::
  "(jsnum \<Rightarrow> string) \<Rightarrow> PredictionRecord list \<Rightarrow> string \<Rightarrow> export_effect" where
  "downloadCSV ns data filename =
     (if length data = 0 then Alert ''No data to export''
      else (let rows = map (csvRow ns) data;
                csv = csvText (csvHeaders # rows)
            in Download filename csv))"

text \<open>The Export button: \<^verbatim>\<open>downloadCSV(filtered)\<close>, the file name left to its default.\<close>

definition exportFiltered ::
  "(string \<Rightarrow> string \<Rightarrow> int) \<Rightarrow> (jsnum \<Rightarrow> string) \<Rightarrow> ui_state \<Rightarrow> export_effect" where
  "exportFiltered lc ns s = downloadCSV ns (filteredView lc s) ''inventory_export.csv''"

text \<open>
  The reading of "to \<open>f\<close> decimal places" the export is compared with: the sign, the digits
  of the integer part, a point, and exactly \<open>f\<close> digits, those of the magnitude rounded to
  the nearest multiple of \<open>10\<^sup>-\<^sup>f\<close> (a tie going up).
\<close>

fun lowDigits :: "nat \<Rightarrow> nat \<Rightarrow> string" where
  "lowDigits 0 n = []"
| "lowDigits (Suc f) n = lowDigits f (n div 10) @ [digitChar (n mod 10)]"

definition decimalPlaces :: "nat \<Rightarrow> rat \<Rightarrow> string" where
  "decimalPlaces f x =
     (let n = nat \<lfloor>\<bar>x\<bar> * 10 ^ f + 1 / 2\<rfloor>
      in (if x < 0 then ''-'' else []) @ digitsOf (n div 10 ^ f) @ ''.'' @ lowDigits f n)"

text \<open>
  \<^verbatim>\<open>Number::toString\<close> where the exact value determines it: the three values that are not
  finite, and an integer with at most 15 significant digits, which prints as its digits below
  \<open>10\<^sup>2\<^sup>1\<close> and in exponent form from there. It stands in for the host's function when a
  definition is evaluated on such numbers; it is not that function on any other.
\<close>

definition stripTrailingZeros :: "string \<Rightarrow> string" where
  "stripTrailingZeros ds = rev (dropWhile (\<lambda>c. c = CHR ''0'') (rev ds))"

definition exponentForm :: "string \<Rightarrow> string" where
  "exponentForm ds =
     (let sig = stripTrailingZeros ds
      in (if length sig = 1 then sig else hd sig # ''.'' @ tl sig)
           @ ''e+'' @ digitsOf (length ds - 1))"

fun integerToString :: "jsnum \<Rightarrow> string" where
  "integerToString NaN = ''NaN''"
| "integerToString PInf = ''Infinity''"
| "integerToString NInf = ''-Infinity''"
| "integerToString (Fin x) =
     (let ds = digitsOf (nat \<lfloor>\<bar>x\<bar>\<rfloor>)
      in (if x < 0 then ''-'' else []) @ (if \<bar>x\<bar> < 10 ^ 21 then ds else exponentForm ds))"

section \<open>Fetching the snapshot\<close>

text \<open>
  \<^verbatim>\<open>fetchData\<close> is an async function with two suspension points, \<^verbatim>\<open>await fetch(...)\<close> and
  \<^verbatim>\<open>await res.json()\<close>. JavaScript runs each stretch between suspension points to its end
  before anything else runs, so the component is a state machine whose steps are: a call of
  \<^verbatim>\<open>fetchData\<close> up to its first \<^verbatim>\<open>await\<close>, the settling of one of the two promises of
  some call together with the code that resumes on it, and the cleanup of the mount effect.

  A settled promise resumes its call in a microtask, ahead of any event handler or effect, so
  no abort falls between a settlement and the code that resumes on it.

  Every call makes one \<^verbatim>\<open>AbortController\<close>, so a call and its controller share a number:
  the position in \<open>invocations\<close>.
\<close>

datatype phase = AwaitingFetch | AwaitingJson | Settled

record invocation =
  aborted :: bool
  phase :: phase

text \<open>
  The body of a \<^verbatim>\<open>/latest\<close> response: an object that may carry \<^verbatim>\<open>predictions\<close>,
  \<^verbatim>\<open>records\<close> and \<^verbatim>\<open>last_updated\<close>. The last two are also names of a record
  property and of a state cell, so the fields of the body carry a prefix.
\<close>

record payload =
  predictions :: "PredictionRecord list option"
  payload_records :: "PredictionRecord list option"
  payload_last_updated :: "string option"

text \<open>
  What the network has for a suspended call: a response with its status, a parsed body, or a
  rejection with the name and the message of the error.
\<close>

datatype fetch_result = Response nat | FetchRejected string string

datatype json_result = Parsed payload | JsonRejected string string

record page_state = ui_state +
  lastUpdated :: "string option"
  loading :: bool
  error :: "string option"
  abortControllerRef :: "nat option"
  invocations :: "invocation list"

definition initialPage :: page_state where
  "initialPage =
     \<lparr>records = [], storeFilter = ''ALL'', categoryFilter = ''ALL'', search = [],
      showCriticalOnly = False, sortField = SkuId, sortOrder = Asc,
      lastUpdated = None, loading = False, error = None,
      abortControllerRef = None, invocations = []\<rparr>"

definition updateAt :: "nat \<Rightarrow> ('a \<Rightarrow> 'a) \<Rightarrow> 'a list \<Rightarrow> 'a list" where
  "updateAt i f xs = (if i < length xs then xs[i := f (xs ! i)] else xs)"

definition lookupAt :: "'a list \<Rightarrow> nat \<Rightarrow> 'a option" where
  "lookupAt xs i = (if i < length xs then Some (xs ! i) else None)"

text \<open>\<^verbatim>\<open>if (abortControllerRef.current) { abortControllerRef.current.abort() }\<close>.\<close>

definition abortCurrent :: "page_state \<Rightarrow> page_state" where
  "abortCurrent st =
     (case abortControllerRef st of
        None \<Rightarrow> st
      | Some c \<Rightarrow> st\<lparr>invocations := updateAt c (\<lambda>i. i\<lparr>aborted := True\<rparr>) (invocations st)\<rparr>)"

text \<open>
  \<^verbatim>\<open>fetchData\<close> up to \<^verbatim>\<open>await fetch(...)\<close>: abort the controller in the ref, put a new one
  there, \<^verbatim>\<open>setLoading(true)\<close>, \<^verbatim>\<open>setError(null)\<close>, start the request on the new signal.
\<close>

definition callFetchData :: "page_state \<Rightarrow> page_state" where
  "callFetchData st =
     (let st1 = abortCurrent st;
          c = length (invocations st1)
      in st1\<lparr>abortControllerRef := Some c,
              invocations := invocations st1 @ [\<lparr>aborted = False, phase = AwaitingFetch\<rparr>],
              loading := True,
              error := None\<rparr>)"

text \<open>The \<^verbatim>\<open>catch\<close> block.\<close>

definition catchHandler :: "string \<Rightarrow> string \<Rightarrow> page_state \<Rightarrow> page_state" where
  "catchHandler name message st =
     (if name \<noteq> ''AbortError''
      then st\<lparr>error := Some (orDefault message ''Failed to fetch data''), loading := False\<rparr>
      else st)"

definition setPhase :: "nat \<Rightarrow> phase \<Rightarrow> page_state \<Rightarrow> page_state" where
  "setPhase i p st = st\<lparr>invocations := updateAt i (\<lambda>v. v\<lparr>phase := p\<rparr>) (invocations st)\<rparr>"

text \<open>
  The Fetch standard on an aborted signal: the promise of \<^verbatim>\<open>fetch\<close>, and the promise of a
  body read that has not finished, reject with the \<^verbatim>\<open>DOMException\<close> named
  \<^verbatim>\<open>AbortError\<close>, whatever the network had.
\<close>

definition deliveredFetch :: "invocation \<Rightarrow> fetch_result \<Rightarrow> fetch_result" where
  "deliveredFetch v r =
     (if aborted v then FetchRejected ''AbortError'' ''The user aborted a request.'' else r)"

definition deliveredJson :: "invocation \<Rightarrow> json_result \<Rightarrow> json_result" where
  "deliveredJson v r =
     (if aborted v then JsonRejected ''AbortError'' ''The user aborted a request.'' else r)"

text \<open>
  The promise of \<^verbatim>\<open>fetch\<close> settles for call \<open>i\<close>, and the call runs on: into the \<^verbatim>\<open>catch\<close>
  block on a rejection or on a status outside 200 to 299, to \<^verbatim>\<open>await res.json()\<close>
  otherwise.
\<close>

definition fetchSettled :: "nat \<Rightarrow> fetch_result \<Rightarrow> page_state \<Rightarrow> page_state" where
  "fetchSettled i r st =
     (case lookupAt (invocations st) i of
        None \<Rightarrow> st
      | Some v \<Rightarrow>
          if phase v \<noteq> AwaitingFetch then st
          else (case deliveredFetch v r of
                  FetchRejected name message \<Rightarrow> catchHandler name message (setPhase i Settled st)
                | Response code \<Rightarrow>
                    if 200 \<le> code \<and> code \<le> 299 then setPhase i AwaitingJson st
                    else catchHandler ''Error'' (''API error: '' @ digitsOf code)
                           (setPhase i Settled st)))"

text \<open>
  The promise of \<^verbatim>\<open>res.json()\<close> settles for call \<open>i\<close>. On a body the call stores
  \<^verbatim>\<open>data.predictions || data.records || []\<close> and
  \<^verbatim>\<open>data.last_updated || (recs.length > 0 ? recs[0].last_updated : null)\<close>: the date of
  the body when it is a non-empty string, else the \<^verbatim>\<open>last_updated\<close> of the first
  record, else nothing.
\<close>

definition jsonSettled :: "nat \<Rightarrow> json_result \<Rightarrow> page_state \<Rightarrow> page_state" where
  "jsonSettled i r st =
     (case lookupAt (invocations st) i of
        None \<Rightarrow> st
      | Some v \<Rightarrow>
          if phase v \<noteq> AwaitingJson then st
          else (case deliveredJson v r of
                  JsonRejected name message \<Rightarrow> catchHandler name message (setPhase i Settled st)
                | Parsed data \<Rightarrow>
                    (let recs = (case predictions data of
                                   Some p \<Rightarrow> p
                                 | None \<Rightarrow> (case payload_records data of Some q \<Rightarrow> q | None \<Rightarrow> []));
                         fallback = (case recs of [] \<Rightarrow> None | first # _ \<Rightarrow> last_updated first);
                         stamp = (case payload_last_updated data of
                                    Some t \<Rightarrow> (if t = [] then fallback else Some t)
                                  | None \<Rightarrow> fallback)
                     in (setPhase i Settled st)
                          \<lparr>records := recs, lastUpdated := stamp, loading := False\<rparr>)))"

datatype event =
    CallFetchData
  | FetchSettles nat fetch_result
  | JsonSettles nat json_result
  | Unmount

fun step :: "page_state \<Rightarrow> event \<Rightarrow> page_state" where
  "step st CallFetchData = callFetchData st"
| "step st (FetchSettles i r) = fetchSettled i r st"
| "step st (JsonSettles i r) = jsonSettled i r st"
| "step st Unmount = abortCurrent st"

definition run :: "event list \<Rightarrow> page_state" where
  "run es = foldl step initialPage es"

text \<open>What the operator sees of a fetch: the records, their date, the spinner, the error.\<close>

definition visible ::
  "page_state \<Rightarrow> PredictionRecord list \<times> string option \<times> bool \<times> string option" where
  "visible st = (records st, lastUpdated st, loading st, error st)"

text \<open>
  What holds of the controllers after any sequence of steps: the ref names the controller made
  last, and every earlier one has been aborted.
\<close>

definition fetch_invariant :: "page_state \<Rightarrow> bool" where
  "fetch_invariant st =
     (length (invocations st) = (case abortControllerRef st of None \<Rightarrow> 0 | Some c \<Rightarrow> Suc c) \<and>
      (\<forall>i < length (invocations st).
         abortControllerRef st \<noteq> Some i \<longrightarrow> aborted (invocations st ! i)))"

section \<open>Sample data\<close>

text \<open>
  A small snapshot used to evaluate the definitions: the record of the README, two Critical
  records with the same \<^verbatim>\<open>days_to_stockout\<close>, a record that never runs out, and a record
  whose status is none of the three the dashboard counts. Every number is a double.
\<close>

definition rec_tshirt :: PredictionRecord where
  "rec_tshirt =
     \<lparr>sku_id = ''TSHIRT_RED_M'', store_id = ''STORE_MUMBAI'', current_stock = Fin 45,
      avg_daily_sales = Some (Fin (3 / 2)), days_to_stockout = Some (Fin 30),
      status = ''Safe'', recommended_reorder_quantity = Some (Fin 20),
      category = Some ''T-Shirts'', city = Some ''Mumbai'',
      last_updated = None\<rparr>"

definition rec_jeans :: PredictionRecord where
  "rec_jeans =
     \<lparr>sku_id = ''JEANS_BLUE_32'', store_id = ''STORE_DELHI'', current_stock = Fin 5,
      avg_daily_sales = Some (Fin (5 / 2)), days_to_stockout = Some (Fin 2),
      status = ''Critical'', recommended_reorder_quantity = Some (Fin 50),
      category = Some ''Jeans'', city = Some ''Delhi'',
      last_updated = None\<rparr>"

definition rec_socks :: PredictionRecord where
  "rec_socks =
     \<lparr>sku_id = ''SOCKS_WHITE'', store_id = ''STORE_MUMBAI'', current_stock = Fin 4,
      avg_daily_sales = Some (Fin 2), days_to_stockout = Some (Fin 2),
      status = ''Critical'', recommended_reorder_quantity = Some (Fin 50),
      category = None, city = None,
      last_updated = None\<rparr>"

definition rec_cap :: PredictionRecord where
  "rec_cap =
     \<lparr>sku_id = ''CAP_BLACK'', store_id = ''STORE_DELHI'', current_stock = Fin 12,
      avg_daily_sales = Some (Fin 0), days_to_stockout = Some PInf,
      status = ''Safe'', recommended_reorder_quantity = None,
      category = Some ''Caps'', city = Some ''Delhi'',
      last_updated = None\<rparr>"

definition rec_belt :: PredictionRecord where
  "rec_belt =
     \<lparr>sku_id = ''BELT_BROWN'', store_id = ''STORE_PUNE'', current_stock = Fin 7,
      avg_daily_sales = Some (Fin 1), days_to_stockout = Some (Fin 7),
      status = ''Unknown'', recommended_reorder_quantity = Some (Fin 0),
      category = Some ''Belts'', city = Some ''Pune'',
      last_updated = None\<rparr>"

definition sample_state :: ui_state where
  "sample_state =
     \<lparr>records = [rec_tshirt, rec_jeans, rec_socks, rec_cap, rec_belt],
      storeFilter = ''ALL'', categoryFilter = ''ALL'', search = [],
      showCriticalOnly = False, sortField = SkuId, sortOrder = Asc\<rparr>"

text \<open>The sample page sorted by \<^verbatim>\<open>days_to_stockout\<close>, ascending.\<close>

definition days_state :: ui_state where
  "days_state = sample_state\<lparr>sortField := DaysToStockout\<rparr>"

text \<open>The sample page with three of the filters on: Delhi, Critical only, search for "blue".\<close>

definition filtered_state :: ui_state where
  "filtered_state =
     sample_state\<lparr>storeFilter := ''STORE_DELHI'', showCriticalOnly := True, search := '' Blue ''\<rparr>"

text \<open>The sample page with a search term no \<^verbatim>\<open>sku_id\<close> contains.\<close>

definition no_match_state :: ui_state where
  "no_match_state = sample_state\<lparr>search := ''zzz''\<rparr>"

text \<open>A record whose average daily sales is the double \<open>10\<^sup>2\<^sup>1\<close>.\<close>

definition rec_bulk :: PredictionRecord where
  "rec_bulk =
     \<lparr>sku_id = ''RICE_BULK'', store_id = ''STORE_PUNE'', current_stock = Fin 1000,
      avg_daily_sales = Some (Fin (10 ^ 21)), days_to_stockout = Some (Fin 0),
      status = ''Critical'', recommended_reorder_quantity = Some (Fin 50),
      category = Some ''Grocery'', city = Some ''Pune'',
      last_updated = None\<rparr>"

text \<open>
  Two Critical records at stores whose names are names of \<^verbatim>\<open>Object.prototype\<close>.
\<close>

definition inherited_state :: ui_state where
  "inherited_state =
     sample_state\<lparr>records := [rec_jeans\<lparr>store_id := ''constructor''\<rparr>,
                               rec_socks\<lparr>store_id := ''__proto__''\<rparr>]\<rparr>"

text \<open>Two response bodies: the sample snapshot with a date, and a later one.\<close>

definition first_payload :: payload where
  "first_payload =
     \<lparr>predictions = Some [rec_tshirt, rec_jeans], payload_records = None,
      payload_last_updated = Some ''2024-01-01T10:00:00''\<rparr>"

definition second_payload :: payload where
  "second_payload =
     \<lparr>predictions = Some [rec_cap], payload_records = None,
      payload_last_updated = Some ''2024-01-01T10:05:00''\<rparr>"

text \<open>
  Records that differ in their name and in the two numeric sort fields only.
\<close>

definition stock_record :: "string \<Rightarrow> jsnum option \<Rightarrow> jsnum option \<Rightarrow> PredictionRecord" where
  "stock_record sku days quantity =
     \<lparr>sku_id = sku, store_id = ''STORE_PUNE'', current_stock = Fin 8,
      avg_daily_sales = Some (Fin 1), days_to_stockout = days,
      status = ''Safe'', recommended_reorder_quantity = quantity,
      category = Some ''Belts'', city = Some ''Pune'',
      last_updated = None\<rparr>"

text \<open>
  Seven records with the reorder quantities 10, 10, 50, 10, none, 20, 20: the fifth comes
  without \<^verbatim>\<open>recommended_reorder_quantity\<close>, the property the export and the table
  default to 0. The page shows them sorted by that column, ascending.
\<close>

definition rec_q1 :: PredictionRecord where
  "rec_q1 = stock_record ''Q1'' (Some (Fin 8)) (Some (Fin 10))"

definition rec_q2 :: PredictionRecord where
  "rec_q2 = stock_record ''Q2'' (Some (Fin 8)) (Some (Fin 10))"

definition rec_q3 :: PredictionRecord where
  "rec_q3 = stock_record ''Q3'' (Some (Fin 8)) (Some (Fin 50))"

definition rec_q4 :: PredictionRecord where
  "rec_q4 = stock_record ''Q4'' (Some (Fin 8)) (Some (Fin 10))"

definition rec_q5 :: PredictionRecord where
  "rec_q5 = stock_record ''Q5'' (Some (Fin 8)) None"

definition rec_q6 :: PredictionRecord where
  "rec_q6 = stock_record ''Q6'' (Some (Fin 8)) (Some (Fin 20))"

definition rec_q7 :: PredictionRecord where
  "rec_q7 = stock_record ''Q7'' (Some (Fin 8)) (Some (Fin 20))"

definition reorder_state :: ui_state where
  "reorder_state =
     sample_state\<lparr>records := [rec_q1, rec_q2, rec_q3, rec_q4, rec_q5, rec_q6, rec_q7],
                  sortField := RecommendedReorderQuantity\<rparr>"

text \<open>
  Four records with \<^verbatim>\<open>days_to_stockout\<close> 2, 0, none, 1, sorted by that column,
  ascending.
\<close>

definition rec_k0 :: PredictionRecord where
  "rec_k0 = stock_record ''K0'' (Some (Fin 2)) (Some (Fin 5))"

definition rec_k1 :: PredictionRecord where
  "rec_k1 = stock_record ''K1'' (Some (Fin 0)) (Some (Fin 5))"

definition rec_k2 :: PredictionRecord where
  "rec_k2 = stock_record ''K2'' None (Some (Fin 5))"

definition rec_k3 :: PredictionRecord where
  "rec_k3 = stock_record ''K3'' (Some (Fin 1)) (Some (Fin 5))"

definition missing_days_state :: ui_state where
  "missing_days_state =
     sample_state\<lparr>records := [rec_k0, rec_k1, rec_k2, rec_k3], sortField := DaysToStockout\<rparr>"

text \<open>
  Three records: one that never runs out, one without a value, one that runs out in 3 days,
  each with the same in \<^verbatim>\<open>recommended_reorder_quantity\<close>. The page sorted by
  \<^verbatim>\<open>days_to_stockout\<close> ascending, by \<^verbatim>\<open>recommended_reorder_quantity\<close> ascending, and,
  the records arriving in the opposite order, by \<^verbatim>\<open>days_to_stockout\<close> descending.
\<close>

definition rec_n0 :: PredictionRecord where
  "rec_n0 = stock_record ''N0'' (Some PInf) (Some PInf)"

definition rec_n1 :: PredictionRecord where
  "rec_n1 = stock_record ''N1'' None None"

definition rec_n2 :: PredictionRecord where
  "rec_n2 = stock_record ''N2'' (Some (Fin 3)) (Some (Fin 3))"

definition infinity_days_state :: ui_state where
  "infinity_days_state =
     sample_state\<lparr>records := [rec_n0, rec_n1, rec_n2], sortField := DaysToStockout\<rparr>"

definition infinity_quantity_state :: ui_state where
  "infinity_quantity_state = infinity_days_state\<lparr>sortField := RecommendedReorderQuantity\<rparr>"

definition infinity_descending_state :: ui_state where
  "infinity_descending_state =
     sample_state\<lparr>records := [rec_n2, rec_n1, rec_n0], sortField := DaysToStockout,
                  sortOrder := Desc\<rparr>"

section \<open>Properties of the aggregates\<close>

lemma length_filter_three:
  assumes "\<And>x. \<not> (P x \<and> Q x)" "\<And>x. \<not> (P x \<and> R x)" "\<And>x. \<not> (Q x \<and> R x)"
  shows "length (filter P xs) + length (filter Q xs) + length (filter R xs)
           = length (filter (\<lambda>x. P x \<or> Q x \<or> R x) xs)"
proof (induction xs)
  case Nil
  show ?case by simp
next
  case (Cons x xs)
  from assms[of x] Cons show ?case by auto
qed

lemma sample_counts:
  "countCritical sample_state = 2" "countWarning sample_state = 0" "countSafe sample_state = 2"
  "length (records sample_state) = 5"
  by (simp_all add: countCritical_def countWarning_def countSafe_def sample_state_def
      rec_tshirt_def rec_jeans_def rec_socks_def rec_cap_def rec_belt_def)

text \<open>
  C10. Each of the three counters counts the records whose status is exactly its string.
  A record with any other status is in none of them: the three counts add up to the number of
  records with one of the three statuses, which is at most the number of records and, on the
  sample snapshot, less.
\<close>

theorem status_counts_partition:
  "countCritical s = length (filter (\<lambda>r. status r = ''Critical'') (records s)) \<and>
   countWarning s = length (filter (\<lambda>r. status r = ''Warning'') (records s)) \<and>
   countSafe s = length (filter (\<lambda>r. status r = ''Safe'') (records s)) \<and>
   countCritical s + countWarning s + countSafe s =
     length (filter (\<lambda>r. status r = ''Critical'' \<or> status r = ''Warning'' \<or> status r = ''Safe'')
       (records s)) \<and>
   countCritical s + countWarning s + countSafe s \<le> length (records s) \<and>
   countCritical sample_state + countWarning sample_state + countSafe sample_state
     < length (records sample_state)"
proof -
  have sum: "countCritical s + countWarning s + countSafe s =
     length (filter (\<lambda>r. status r = ''Critical'' \<or> status r = ''Warning'' \<or> status r = ''Safe'')
       (records s))"
    unfolding countCritical_def countWarning_def countSafe_def
    by (rule length_filter_three) simp_all
  have le: "countCritical s + countWarning s + countSafe s \<le> length (records s)"
    unfolding sum by (rule length_filter_le)
  have strict: "countCritical sample_state + countWarning sample_state + countSafe sample_state
     < length (records sample_state)"
    by (simp add: sample_counts)
  from sum le strict show ?thesis
    by (simp add: countCritical_def countWarning_def countSafe_def)
qed

theorem status_counts_partition_witness:
  "countCritical sample_state + countWarning sample_state + countSafe sample_state = 4 \<and>
   length (records sample_state) = 5"
  using status_counts_partition [of sample_state] by (simp add: sample_counts)

section \<open>Properties of the sort\<close>

lemma sortCompare_not_NaN: "sortCompare cmp x y \<noteq> NaN"
  by (simp add: sortCompare_def split: jsnum.splits)

lemma sign_cases: "v \<noteq> NaN \<Longrightarrow> is_zero v \<or> is_negative v \<or> is_positive v"
  by (cases v) auto

lemma sign_exclusive:
  "\<not> (is_zero v \<and> is_negative v)" "\<not> (is_zero v \<and> is_positive v)"
  "\<not> (is_negative v \<and> is_positive v)"
  by (cases v; auto)+

lemma consistentD:
  assumes "consistent_comparator cmp S" "a \<in> S" "b \<in> S" "c \<in> S"
  shows "is_zero (sortCompare cmp a a)"
    and "is_zero (sortCompare cmp a b) \<Longrightarrow> is_zero (sortCompare cmp b a)"
    and "is_zero (sortCompare cmp a b) \<Longrightarrow> is_zero (sortCompare cmp b c)
           \<Longrightarrow> is_zero (sortCompare cmp a c)"
    and "is_negative (sortCompare cmp a b) \<Longrightarrow> is_negative (sortCompare cmp b c)
           \<Longrightarrow> is_negative (sortCompare cmp a c)"
    and "is_positive (sortCompare cmp a b) \<Longrightarrow> is_positive (sortCompare cmp b c)
           \<Longrightarrow> is_positive (sortCompare cmp a c)"
  using assms unfolding consistent_comparator_def by blast+

lemma consistent_subset:
  "consistent_comparator cmp S \<Longrightarrow> T \<subseteq> S \<Longrightarrow> consistent_comparator cmp T"
  unfolding consistent_comparator_def by blast

lemma positive_imp_negative:
  assumes con: "consistent_comparator cmp S" and ab: "a \<in> S" "b \<in> S"
    and pos: "is_positive (sortCompare cmp a b)"
  shows "is_negative (sortCompare cmp b a)"
proof -
  have "\<not> is_zero (sortCompare cmp b a)"
    using consistentD(2)[OF con ab(2) ab(1) ab(1)] pos sign_exclusive(2) by blast
  moreover have "\<not> is_positive (sortCompare cmp b a)"
    using consistentD(5)[OF con ab(1) ab(2) ab(1)] consistentD(1)[OF con ab(1) ab(1) ab(1)]
      pos sign_exclusive(2) by blast
  ultimately show ?thesis
    using sign_cases[OF sortCompare_not_NaN, of cmp b a] by blast
qed

lemma negative_imp_positive:
  assumes con: "consistent_comparator cmp S" and ab: "a \<in> S" "b \<in> S"
    and neg: "is_negative (sortCompare cmp a b)"
  shows "is_positive (sortCompare cmp b a)"
proof -
  have "\<not> is_zero (sortCompare cmp b a)"
    using consistentD(2)[OF con ab(2) ab(1) ab(1)] neg sign_exclusive(1) by blast
  moreover have "\<not> is_negative (sortCompare cmp b a)"
    using consistentD(4)[OF con ab(1) ab(2) ab(1)] consistentD(1)[OF con ab(1) ab(1) ab(1)]
      neg sign_exclusive(1) by blast
  ultimately show ?thesis
    using sign_cases[OF sortCompare_not_NaN, of cmp b a] by blast
qed

lemma not_positive_trans:
  assumes con: "consistent_comparator cmp S" and abc: "a \<in> S" "b \<in> S" "c \<in> S"
    and ab: "\<not> is_positive (sortCompare cmp a b)"
    and bc: "\<not> is_positive (sortCompare cmp b c)"
  shows "\<not> is_positive (sortCompare cmp a c)"
proof
  assume ac: "is_positive (sortCompare cmp a c)"
  have ca: "is_negative (sortCompare cmp c a)"
    by (rule positive_imp_negative[OF con abc(1) abc(3) ac])
  from ab have "is_zero (sortCompare cmp a b) \<or> is_negative (sortCompare cmp a b)"
    using sign_cases[OF sortCompare_not_NaN, of cmp a b] by blast
  then show False
  proof
    assume zab: "is_zero (sortCompare cmp a b)"
    from bc have "is_zero (sortCompare cmp b c) \<or> is_negative (sortCompare cmp b c)"
      using sign_cases[OF sortCompare_not_NaN, of cmp b c] by blast
    then show False
    proof
      assume "is_zero (sortCompare cmp b c)"
      with zab have "is_zero (sortCompare cmp a c)"
        using consistentD(3)[OF con abc] by blast
      with ac show False using sign_exclusive(2) by blast
    next
      assume nbc: "is_negative (sortCompare cmp b c)"
      have "is_negative (sortCompare cmp b a)"
        using consistentD(4)[OF con abc(2) abc(3) abc(1)] nbc ca by blast
      moreover have "is_zero (sortCompare cmp b a)"
        using consistentD(2)[OF con abc(1) abc(2) abc(2)] zab by blast
      ultimately show False using sign_exclusive(1) by blast
    qed
  next
    assume nab: "is_negative (sortCompare cmp a b)"
    have "is_negative (sortCompare cmp c b)"
      using consistentD(4)[OF con abc(3) abc(1) abc(2)] ca nab by blast
    then have "is_positive (sortCompare cmp b c)"
      by (rule negative_imp_positive[OF con abc(3) abc(2)])
    with bc show False by blast
  qed
qed

lemma set_insort_by: "set (insort_by cmp x ys) = insert x (set ys)"
  by (induction ys) auto

lemma length_insort_by: "length (insort_by cmp x ys) = Suc (length ys)"
  by (induction ys) auto

lemma ordered_insort_by:
  assumes con: "consistent_comparator cmp S" and x: "x \<in> S" and ys: "set ys \<subseteq> S"
    and ord: "sorted_wrt (\<lambda>x y. \<not> is_positive (sortCompare cmp x y)) ys"
  shows "sorted_wrt (\<lambda>x y. \<not> is_positive (sortCompare cmp x y)) (insort_by cmp x ys)"
  using ys ord
proof (induction ys)
  case Nil
  show ?case by simp
next
  case (Cons y ys)
  from Cons.prems have y: "y \<in> S" and ys: "set ys \<subseteq> S" by auto
  show ?case
  proof (cases "is_positive (sortCompare cmp x y)")
    case True
    have "\<not> is_positive (sortCompare cmp y x)"
      using positive_imp_negative[OF con x y True] sign_exclusive(3) by blast
    with True Cons show ?thesis by (auto simp: set_insort_by)
  next
    case False
    have "\<not> is_positive (sortCompare cmp x z)" if "z \<in> set ys" for z
    proof -
      from that Cons.prems have "\<not> is_positive (sortCompare cmp y z)" by auto
      with False show ?thesis
        using not_positive_trans[OF con x y] that ys by blast
    qed
    with False Cons.prems show ?thesis by auto
  qed
qed

lemma stable_insort_by:
  assumes con: "consistent_comparator cmp S" and a: "a \<in> S" and x: "x \<in> S"
    and ys: "set ys \<subseteq> S"
  shows "filter (\<lambda>r. is_zero (sortCompare cmp a r)) (insort_by cmp x ys)
           = filter (\<lambda>r. is_zero (sortCompare cmp a r)) (x # ys)"
  using ys
proof (induction ys)
  case Nil
  show ?case by simp
next
  case (Cons y ys)
  from Cons.prems have y: "y \<in> S" and ys: "set ys \<subseteq> S" by auto
  show ?case
  proof (cases "is_positive (sortCompare cmp x y)")
    case True
    have "\<not> (is_zero (sortCompare cmp a x) \<and> is_zero (sortCompare cmp a y))"
    proof
      assume h: "is_zero (sortCompare cmp a x) \<and> is_zero (sortCompare cmp a y)"
      then have "is_zero (sortCompare cmp x a)"
        using consistentD(2)[OF con a x x] by blast
      with h have "is_zero (sortCompare cmp x y)"
        using consistentD(3)[OF con x a y] by blast
      with True show False using sign_exclusive(2) by blast
    qed
    with True Cons.IH[OF ys] show ?thesis by auto
  next
    case False
    then show ?thesis by simp
  qed
qed

subsection \<open>Runs\<close>

lemma ascendingRun_le: "ascendingRun cmp p xs \<le> length xs"
  by (induction xs arbitrary: p) auto

lemma descendingRun_le: "descendingRun cmp p xs \<le> length xs"
  by (induction xs arbitrary: p) auto

lemma ascendingRun_chain:
  "successively (\<lambda>a b. \<not> is_negative (sortCompare cmp b a))
     (p # take (ascendingRun cmp p xs) xs)"
  by (induction xs arbitrary: p) auto

lemma descendingRun_chain:
  "successively (\<lambda>a b. is_negative (sortCompare cmp b a))
     (p # take (descendingRun cmp p xs) xs)"
  by (induction xs arbitrary: p) auto

lemma ascending_chain_ordered:
  assumes con: "consistent_comparator cmp S" and ys: "set ys \<subseteq> S"
    and chain: "successively (\<lambda>a b. \<not> is_negative (sortCompare cmp b a)) ys"
  shows "sorted_wrt (\<lambda>x y. \<not> is_positive (sortCompare cmp x y)) ys"
proof -
  have "successively (\<lambda>a b. \<not> is_positive (sortCompare cmp a b)) ys"
  proof (rule successively_mono[OF chain])
    fix a b assume "a \<in> set ys" "b \<in> set ys" "\<not> is_negative (sortCompare cmp b a)"
    with ys show "\<not> is_positive (sortCompare cmp a b)"
      using positive_imp_negative[OF con, of a b] by blast
  qed
  moreover have "successively (\<lambda>a b. \<not> is_positive (sortCompare cmp a b)) ys
      = sorted_wrt (\<lambda>a b. \<not> is_positive (sortCompare cmp a b)) ys"
  proof (rule successively_iff_sorted_wrt_strong)
    fix x y z assume "x \<in> set ys" "y \<in> set ys" "z \<in> set ys"
      "\<not> is_positive (sortCompare cmp x y)" "\<not> is_positive (sortCompare cmp y z)"
    with ys show "\<not> is_positive (sortCompare cmp x z)"
      using not_positive_trans[OF con, of x y z] by blast
  qed
  ultimately show ?thesis by simp
qed

lemma descending_chain_strict:
  assumes con: "consistent_comparator cmp S" and ys: "set ys \<subseteq> S"
    and chain: "successively (\<lambda>a b. is_negative (sortCompare cmp b a)) ys"
  shows "sorted_wrt (\<lambda>x y. is_negative (sortCompare cmp x y)) (rev ys)"
proof -
  from chain have "successively (\<lambda>x y. is_negative (sortCompare cmp x y)) (rev ys)"
    by (simp add: successively_rev)
  moreover have "successively (\<lambda>x y. is_negative (sortCompare cmp x y)) (rev ys)
      = sorted_wrt (\<lambda>x y. is_negative (sortCompare cmp x y)) (rev ys)"
  proof (rule successively_iff_sorted_wrt_strong)
    fix x y z assume "x \<in> set (rev ys)" "y \<in> set (rev ys)" "z \<in> set (rev ys)"
      "is_negative (sortCompare cmp x y)" "is_negative (sortCompare cmp y z)"
    with ys show "is_negative (sortCompare cmp x z)"
      using consistentD(4)[OF con, of x y z] by auto
  qed
  ultimately show ?thesis by simp
qed

lemma filter_rev_no_pair:
  assumes "sorted_wrt (\<lambda>x y. \<not> (P x \<and> P y)) ys"
  shows "filter P (rev ys) = filter P ys"
  using assms
proof (induction ys)
  case Nil
  show ?case by simp
next
  case (Cons y ys)
  then have ih: "filter P (rev ys) = filter P ys" by simp
  show ?case
  proof (cases "P y")
    case True
    with Cons.prems have "\<forall>z\<in>set ys. \<not> P z" by auto
    then have "filter P ys = []" by (simp add: filter_empty_conv)
    with ih True show ?thesis by simp
  next
    case False
    with ih show ?thesis by simp
  qed
qed

lemma equal_not_negative:
  assumes con: "consistent_comparator cmp S" and a: "a \<in> S" and x: "x \<in> S" and y: "y \<in> S"
    and ax: "is_zero (sortCompare cmp a x)" and ay: "is_zero (sortCompare cmp a y)"
  shows "\<not> is_negative (sortCompare cmp x y)"
proof -
  have "is_zero (sortCompare cmp x a)"
    using consistentD(2)[OF con a x x] ax by blast
  with ay have "is_zero (sortCompare cmp x y)"
    using consistentD(3)[OF con x a y] by blast
  then show ?thesis using sign_exclusive(1) by blast
qed

lemma stable_rev_strict:
  assumes con: "consistent_comparator cmp S" and a: "a \<in> S" and ys: "set ys \<subseteq> S"
    and strict: "sorted_wrt (\<lambda>x y. is_negative (sortCompare cmp x y)) (rev ys)"
  shows "filter (\<lambda>r. is_zero (sortCompare cmp a r)) (rev ys)
           = filter (\<lambda>r. is_zero (sortCompare cmp a r)) ys"
proof -
  have "sorted_wrt (\<lambda>x y. \<not> (is_zero (sortCompare cmp a x) \<and> is_zero (sortCompare cmp a y)))
          (rev ys)"
  proof (rule sorted_wrt_mono_rel[OF _ strict])
    fix x y assume "x \<in> set (rev ys)" "y \<in> set (rev ys)" "is_negative (sortCompare cmp x y)"
    with ys show "\<not> (is_zero (sortCompare cmp a x) \<and> is_zero (sortCompare cmp a y))"
      using equal_not_negative[OF con a, of x y] by auto
  qed
  from filter_rev_no_pair[OF this] show ?thesis by simp
qed


lemma countAndMakeRun_shape:
  assumes "countAndMakeRun cmp xs = (n, w)"
  shows "n \<le> length xs \<and> length w = length xs \<and> drop n w = drop n xs
           \<and> set (take n w) = set (take n xs) \<and> length (take n w) = n"
proof (cases xs)
  case Nil
  with assms show ?thesis by (auto simp: countAndMakeRun_def)
next
  case (Cons x0 ys)
  show ?thesis
  proof (cases ys)
    case Nil
    with Cons assms show ?thesis by (auto simp: countAndMakeRun_def)
  next
    case (Cons x1 rest)
    note xs = \<open>xs = x0 # ys\<close> Cons
    show ?thesis
    proof (cases "is_negative (sortCompare cmp x1 x0)")
      case True
      with assms xs have n: "n = 2 + descendingRun cmp x1 rest"
        and w: "w = rev (take n xs) @ drop n xs"
        by (auto simp: countAndMakeRun_def Let_def)
      from n descendingRun_le[of cmp x1 rest] xs have le: "n \<le> length xs" by simp
      then have len: "length (rev (take n xs)) = n" by simp
      from w len have "take n w = rev (take n xs)" "drop n w = drop n xs" by simp_all
      with le w show ?thesis by simp
    next
      case False
      with assms xs have n: "n = 2 + ascendingRun cmp x1 rest" and w: "w = xs"
        by (auto simp: countAndMakeRun_def)
      from n ascendingRun_le[of cmp x1 rest] xs have "n \<le> length xs" by simp
      with w show ?thesis by simp
    qed
  qed
qed

lemma countAndMakeRun_ordered:
  assumes con: "consistent_comparator cmp S" and sub: "set xs \<subseteq> S"
    and run: "countAndMakeRun cmp xs = (n, w)"
  shows "sorted_wrt (\<lambda>x y. \<not> is_positive (sortCompare cmp x y)) (take n w)"
proof (cases xs)
  case Nil
  with run show ?thesis by (auto simp: countAndMakeRun_def)
next
  case (Cons x0 ys)
  show ?thesis
  proof (cases ys)
    case Nil
    with Cons run show ?thesis by (auto simp: countAndMakeRun_def)
  next
    case (Cons x1 rest)
    note xs = \<open>xs = x0 # ys\<close> Cons
    have inS: "set (take n xs) \<subseteq> S" using sub set_take_subset[of n xs] by blast
    show ?thesis
    proof (cases "is_negative (sortCompare cmp x1 x0)")
      case True
      with run xs have n: "n = 2 + descendingRun cmp x1 rest"
        and w: "w = rev (take n xs) @ drop n xs"
        by (auto simp: countAndMakeRun_def Let_def)
      from n descendingRun_le[of cmp x1 rest] xs have le: "n \<le> length xs" by simp
      then have len: "length (rev (take n xs)) = n" by simp
      from w len have tw: "take n w = rev (take n xs)" by simp
      from n xs have tx: "take n xs = x0 # x1 # take (descendingRun cmp x1 rest) rest" by simp
      have "successively (\<lambda>a b. is_negative (sortCompare cmp b a)) (take n xs)"
        unfolding tx using True descendingRun_chain[of cmp x1 rest] by simp
      from descending_chain_strict[OF con inS this]
      have "sorted_wrt (\<lambda>x y. is_negative (sortCompare cmp x y)) (take n w)"
        by (simp add: tw)
      then show ?thesis
      proof (rule sorted_wrt_mono_rel[rotated])
        fix x y assume "is_negative (sortCompare cmp x y)"
        then show "\<not> is_positive (sortCompare cmp x y)" using sign_exclusive(3) by blast
      qed
    next
      case False
      with run xs have n: "n = 2 + ascendingRun cmp x1 rest" and w: "w = xs"
        by (auto simp: countAndMakeRun_def)
      from n xs have tx: "take n xs = x0 # x1 # take (ascendingRun cmp x1 rest) rest" by simp
      have "successively (\<lambda>a b. \<not> is_negative (sortCompare cmp b a)) (take n xs)"
        unfolding tx using False ascendingRun_chain[of cmp x1 rest] by simp
      from ascending_chain_ordered[OF con inS this] w show ?thesis by simp
    qed
  qed
qed

lemma countAndMakeRun_stable:
  assumes con: "consistent_comparator cmp S" and a: "a \<in> S" and sub: "set xs \<subseteq> S"
    and run: "countAndMakeRun cmp xs = (n, w)"
  shows "filter (\<lambda>r. is_zero (sortCompare cmp a r)) (take n w)
           = filter (\<lambda>r. is_zero (sortCompare cmp a r)) (take n xs)"
proof (cases xs)
  case Nil
  with run show ?thesis by (auto simp: countAndMakeRun_def)
next
  case (Cons x0 ys)
  show ?thesis
  proof (cases ys)
    case Nil
    with Cons run show ?thesis by (auto simp: countAndMakeRun_def)
  next
    case (Cons x1 rest)
    note xs = \<open>xs = x0 # ys\<close> Cons
    have inS: "set (take n xs) \<subseteq> S" using sub set_take_subset[of n xs] by blast
    show ?thesis
    proof (cases "is_negative (sortCompare cmp x1 x0)")
      case True
      with run xs have n: "n = 2 + descendingRun cmp x1 rest"
        and w: "w = rev (take n xs) @ drop n xs"
        by (auto simp: countAndMakeRun_def Let_def)
      from n descendingRun_le[of cmp x1 rest] xs have le: "n \<le> length xs" by simp
      then have len: "length (rev (take n xs)) = n" by simp
      from w len have tw: "take n w = rev (take n xs)" by simp
      from n xs have tx: "take n xs = x0 # x1 # take (descendingRun cmp x1 rest) rest" by simp
      have "successively (\<lambda>a b. is_negative (sortCompare cmp b a)) (take n xs)"
        unfolding tx using True descendingRun_chain[of cmp x1 rest] by simp
      from stable_rev_strict[OF con a inS descending_chain_strict[OF con inS this]]
      show ?thesis by (simp add: tw)
    next
      case False
      with run xs have "w = xs" by (auto simp: countAndMakeRun_def)
      then show ?thesis by simp
    qed
  qed
qed

subsection \<open>Binary insertion\<close>

lemma negative_le_trans:
  assumes con: "consistent_comparator cmp S" and abc: "a \<in> S" "b \<in> S" "c \<in> S"
    and ab: "is_negative (sortCompare cmp a b)"
    and bc: "\<not> is_positive (sortCompare cmp b c)"
  shows "is_negative (sortCompare cmp a c)"
proof -
  have "\<not> is_positive (sortCompare cmp a b)" using ab sign_exclusive(3) by blast
  from not_positive_trans[OF con abc this bc]
  have np: "\<not> is_positive (sortCompare cmp a c)" .
  have "\<not> is_zero (sortCompare cmp a c)"
  proof
    assume z: "is_zero (sortCompare cmp a c)"
    then have "is_zero (sortCompare cmp c a)" using consistentD(2)[OF con abc(1) abc(3) abc(3)] by blast
    have "\<not> is_positive (sortCompare cmp c a)" using \<open>is_zero (sortCompare cmp c a)\<close> sign_exclusive(2) by blast
    from not_positive_trans[OF con abc(2) abc(3) abc(1) bc this]
    have "\<not> is_positive (sortCompare cmp b a)" .
    moreover have "is_positive (sortCompare cmp b a)"
      by (rule negative_imp_positive[OF con abc(1) abc(2) ab])
    ultimately show False by blast
  qed
  with np show ?thesis using sign_cases[OF sortCompare_not_NaN, of cmp a c] by blast
qed

lemma binarySearch_split:
  assumes con: "consistent_comparator cmp S" and p: "p \<in> S" and sub: "set w \<subseteq> S"
    and ord: "sorted_wrt (\<lambda>x y. \<not> is_positive (sortCompare cmp x y)) w"
  shows "left \<le> right \<Longrightarrow> right \<le> length w
    \<Longrightarrow> (\<forall>i<left. \<not> is_negative (sortCompare cmp p (w ! i)))
    \<Longrightarrow> (\<forall>i. right \<le> i \<and> i < length w \<longrightarrow> is_negative (sortCompare cmp p (w ! i)))
    \<Longrightarrow> binarySearch cmp p w left right \<le> length w
        \<and> (\<forall>i<binarySearch cmp p w left right. \<not> is_negative (sortCompare cmp p (w ! i)))
        \<and> (\<forall>i. binarySearch cmp p w left right \<le> i \<and> i < length w
              \<longrightarrow> is_negative (sortCompare cmp p (w ! i)))"
  using assms
proof (induction cmp p w left right rule: binarySearch.induct)
  case (1 cmp pivot work left right)
  note con = "1.prems"(5) and p = "1.prems"(6) and sub = "1.prems"(7) and ord = "1.prems"(8)
  show ?case
  proof (cases "left < right")
    case False
    then have "binarySearch cmp pivot work left right = left"
      by (subst binarySearch.simps) simp
    with False "1.prems"(1-4) show ?thesis by simp
  next
    case True
    define mid where "mid = left + (right - left) div 2"
    from True have mid: "left \<le> mid" "mid < right" by (simp_all add: mid_def)
    with "1.prems" have midlen: "mid < length work" by simp
    then have midS: "work ! mid \<in> S" using sub by auto
    have le: "\<not> is_positive (sortCompare cmp (work ! i) (work ! j))"
      if "i \<le> j" "j < length work" for i j
    proof (cases "i = j")
      case True
      have "work ! j \<in> S" using that sub by auto
      from consistentD(1)[OF con this this this] True show ?thesis
        using sign_exclusive(2) by metis
    next
      case False
      with that have "i < j" by simp
      with ord that show ?thesis by (simp add: sorted_wrt_iff_nth_less)
    qed
    show ?thesis
    proof (cases "is_negative (sortCompare cmp pivot (work ! mid))")
      case neg: True
      have upper: "\<forall>i. mid \<le> i \<and> i < length work \<longrightarrow> is_negative (sortCompare cmp pivot (work ! i))"
      proof (intro allI impI)
        fix i assume i: "mid \<le> i \<and> i < length work"
        then have "work ! i \<in> S" using sub by auto
        from negative_le_trans[OF con p midS this neg le] i
        show "is_negative (sortCompare cmp pivot (work ! i))" by blast
      qed
      have "binarySearch cmp pivot work left right = binarySearch cmp pivot work left mid"
        using True neg by (simp add: binarySearch.simps[of cmp pivot work left right] mid_def)
      moreover have "binarySearch cmp pivot work left mid \<le> length work
        \<and> (\<forall>i<binarySearch cmp pivot work left mid. \<not> is_negative (sortCompare cmp pivot (work ! i)))
        \<and> (\<forall>i. binarySearch cmp pivot work left mid \<le> i \<and> i < length work
              \<longrightarrow> is_negative (sortCompare cmp pivot (work ! i)))"
        using "1.IH"(1)[OF True mid_def neg mid(1) _ "1.prems"(3) upper con p sub ord] midlen
        by simp
      ultimately show ?thesis by simp
    next
      case nneg: False
      have lower: "\<forall>i<mid + 1. \<not> is_negative (sortCompare cmp pivot (work ! i))"
      proof (intro allI impI)
        fix i assume i: "i < mid + 1"
        then have ilen: "i < length work" using midlen by simp
        then have iS: "work ! i \<in> S" using sub by auto
        from i have "i \<le> mid" by simp
        from le[OF this midlen] have a: "\<not> is_positive (sortCompare cmp (work ! i) (work ! mid))" .
        have b: "\<not> is_positive (sortCompare cmp (work ! mid) pivot)"
          using positive_imp_negative[OF con midS p] nneg by blast
        from not_positive_trans[OF con iS midS p a b]
        have "\<not> is_positive (sortCompare cmp (work ! i) pivot)" .
        then show "\<not> is_negative (sortCompare cmp pivot (work ! i))"
          using negative_imp_positive[OF con p iS] by blast
      qed
      have "binarySearch cmp pivot work left right = binarySearch cmp pivot work (mid + 1) right"
        using True nneg by (simp add: binarySearch.simps[of cmp pivot work left right] mid_def)
      moreover have "binarySearch cmp pivot work (mid + 1) right \<le> length work
        \<and> (\<forall>i<binarySearch cmp pivot work (mid + 1) right. \<not> is_negative (sortCompare cmp pivot (work ! i)))
        \<and> (\<forall>i. binarySearch cmp pivot work (mid + 1) right \<le> i \<and> i < length work
              \<longrightarrow> is_negative (sortCompare cmp pivot (work ! i)))"
        using "1.IH"(2)[OF True mid_def nneg _ "1.prems"(2) lower "1.prems"(4) con p sub ord] mid
        by simp
      ultimately show ?thesis by simp
    qed
  qed
qed


lemma binarySearch_position:
  assumes con: "consistent_comparator cmp S" and p: "p \<in> S" and sub: "set pre \<subseteq> S"
    and ord: "sorted_wrt (\<lambda>x y. \<not> is_positive (sortCompare cmp x y)) pre"
  shows "(\<forall>x\<in>set (take (binarySearch cmp p pre 0 (length pre)) pre).
            \<not> is_negative (sortCompare cmp p x))
       \<and> (\<forall>y\<in>set (drop (binarySearch cmp p pre 0 (length pre)) pre).
            is_negative (sortCompare cmp p y))"
proof -
  define k where "k = binarySearch cmp p pre 0 (length pre)"
  have "binarySearch cmp p pre 0 (length pre) \<le> length pre
        \<and> (\<forall>i<binarySearch cmp p pre 0 (length pre). \<not> is_negative (sortCompare cmp p (pre ! i)))
        \<and> (\<forall>i. binarySearch cmp p pre 0 (length pre) \<le> i \<and> i < length pre
              \<longrightarrow> is_negative (sortCompare cmp p (pre ! i)))"
    by (rule binarySearch_split[OF con p sub ord]) auto
  then have k: "k \<le> length pre"
    and lower: "\<And>i. i < k \<Longrightarrow> \<not> is_negative (sortCompare cmp p (pre ! i))"
    and upper: "\<And>i. k \<le> i \<Longrightarrow> i < length pre \<Longrightarrow> is_negative (sortCompare cmp p (pre ! i))"
    unfolding k_def by blast+
  have "\<not> is_negative (sortCompare cmp p x)" if "x \<in> set (take k pre)" for x
  proof -
    from that obtain i where i: "i < length (take k pre)" "take k pre ! i = x"
      unfolding in_set_conv_nth by blast
    from i(1) have "i < k" by simp
    with i(2) have "pre ! i = x" by simp
    with lower[OF \<open>i < k\<close>] show ?thesis by simp
  qed
  moreover have "is_negative (sortCompare cmp p y)" if "y \<in> set (drop k pre)" for y
  proof -
    from that obtain i where i: "i < length (drop k pre)" "drop k pre ! i = y"
      unfolding in_set_conv_nth by blast
    from i(1) have len: "k + i < length pre" by simp
    from i(2) k have "pre ! (k + i) = y" by simp
    with upper[OF _ len] show ?thesis by simp
  qed
  ultimately show ?thesis unfolding k_def by blast
qed

lemma set_binaryInsert: "set (binaryInsert cmp pre p) = insert p (set pre)"
proof -
  have "set (take k pre) \<union> set (drop k pre) = set pre" for k
    using set_append[of "take k pre" "drop k pre"] by simp
  then show ?thesis by (auto simp: binaryInsert_def Let_def)
qed

lemma length_binaryInsert: "length (binaryInsert cmp pre p) = Suc (length pre)"
  by (simp add: binaryInsert_def Let_def)

lemma ordered_binaryInsert:
  assumes con: "consistent_comparator cmp S" and p: "p \<in> S" and sub: "set pre \<subseteq> S"
    and ord: "sorted_wrt (\<lambda>x y. \<not> is_positive (sortCompare cmp x y)) pre"
  shows "sorted_wrt (\<lambda>x y. \<not> is_positive (sortCompare cmp x y)) (binaryInsert cmp pre p)"
proof -
  let ?k = "binarySearch cmp p pre 0 (length pre)"
  let ?le = "\<lambda>x y. \<not> is_positive (sortCompare cmp x y)"
  from binarySearch_position[OF con p sub ord]
  have lower: "\<forall>x\<in>set (take ?k pre). \<not> is_negative (sortCompare cmp p x)"
    and upper: "\<forall>y\<in>set (drop ?k pre). is_negative (sortCompare cmp p y)"
    by blast+
  from ord have "sorted_wrt ?le (take ?k pre @ drop ?k pre)" by simp
  then have parts: "sorted_wrt ?le (take ?k pre)" "sorted_wrt ?le (drop ?k pre)"
    "\<forall>x\<in>set (take ?k pre). \<forall>y\<in>set (drop ?k pre). ?le x y"
    unfolding sorted_wrt_append by blast+
  have before: "?le x p" if "x \<in> set (take ?k pre)" for x
  proof -
    from that sub have "x \<in> S" using set_take_subset[of ?k pre] by blast
    with that lower show ?thesis using positive_imp_negative[OF con _ p, of x] by blast
  qed
  have after: "?le p y" if "y \<in> set (drop ?k pre)" for y
    using that upper sign_exclusive(3) by blast
  from parts before after show ?thesis
    by (simp add: binaryInsert_def Let_def sorted_wrt_append)
qed

lemma stable_binaryInsert:
  assumes con: "consistent_comparator cmp S" and a: "a \<in> S" and p: "p \<in> S"
    and sub: "set pre \<subseteq> S"
    and ord: "sorted_wrt (\<lambda>x y. \<not> is_positive (sortCompare cmp x y)) pre"
  shows "filter (\<lambda>r. is_zero (sortCompare cmp a r)) (binaryInsert cmp pre p)
           = filter (\<lambda>r. is_zero (sortCompare cmp a r)) (pre @ [p])"
proof -
  let ?k = "binarySearch cmp p pre 0 (length pre)"
  let ?eq = "\<lambda>r. is_zero (sortCompare cmp a r)"
  have split: "filter ?eq pre = filter ?eq (take ?k pre) @ filter ?eq (drop ?k pre)"
    using filter_append[of ?eq "take ?k pre" "drop ?k pre"] by simp
  show ?thesis
  proof (cases "?eq p")
    case False
    then show ?thesis by (simp add: binaryInsert_def Let_def split)
  next
    case True
    from binarySearch_position[OF con p sub ord]
    have upper: "\<forall>y\<in>set (drop ?k pre). is_negative (sortCompare cmp p y)" by blast
    have "\<not> ?eq y" if "y \<in> set (drop ?k pre)" for y
    proof
      assume "?eq y"
      from that sub have "y \<in> S" using set_drop_subset[of ?k pre] by blast
      from equal_not_negative[OF con a p this True \<open>?eq y\<close>] upper that
      show False by blast
    qed
    then have "filter ?eq (drop ?k pre) = []" by (simp add: filter_empty_conv)
    with True show ?thesis by (simp add: binaryInsert_def Let_def split)
  qed
qed

lemma set_binaryInsertionSort:
  "set (binaryInsertionSort cmp pre rest) = set pre \<union> set rest"
  unfolding binaryInsertionSort_def
  by (induction rest arbitrary: pre) (auto simp: set_binaryInsert)

lemma length_binaryInsertionSort:
  "length (binaryInsertionSort cmp pre rest) = length pre + length rest"
  unfolding binaryInsertionSort_def
  by (induction rest arbitrary: pre) (auto simp: length_binaryInsert)

lemma ordered_binaryInsertionSort:
  assumes con: "consistent_comparator cmp S"
  shows "set pre \<subseteq> S \<Longrightarrow> set rest \<subseteq> S
    \<Longrightarrow> sorted_wrt (\<lambda>x y. \<not> is_positive (sortCompare cmp x y)) pre
    \<Longrightarrow> sorted_wrt (\<lambda>x y. \<not> is_positive (sortCompare cmp x y))
          (binaryInsertionSort cmp pre rest)"
proof (induction rest arbitrary: pre)
  case Nil
  then show ?case by (simp add: binaryInsertionSort_def)
next
  case (Cons p rest)
  from Cons.prems have p: "p \<in> S" and rest: "set rest \<subseteq> S" by auto
  have "set (binaryInsert cmp pre p) \<subseteq> S"
    using Cons.prems(1) p by (simp add: set_binaryInsert)
  from Cons.IH[OF this rest ordered_binaryInsert[OF con p Cons.prems(1) Cons.prems(3)]]
  show ?case by (simp add: binaryInsertionSort_def)
qed

lemma stable_binaryInsertionSort:
  assumes con: "consistent_comparator cmp S" and a: "a \<in> S"
  shows "set pre \<subseteq> S \<Longrightarrow> set rest \<subseteq> S
    \<Longrightarrow> sorted_wrt (\<lambda>x y. \<not> is_positive (sortCompare cmp x y)) pre
    \<Longrightarrow> filter (\<lambda>r. is_zero (sortCompare cmp a r)) (binaryInsertionSort cmp pre rest)
          = filter (\<lambda>r. is_zero (sortCompare cmp a r)) (pre @ rest)"
proof (induction rest arbitrary: pre)
  case Nil
  then show ?case by (simp add: binaryInsertionSort_def)
next
  case (Cons p rest)
  from Cons.prems have p: "p \<in> S" and rest: "set rest \<subseteq> S" by auto
  have sub: "set (binaryInsert cmp pre p) \<subseteq> S"
    using Cons.prems(1) p by (simp add: set_binaryInsert)
  from Cons.IH[OF sub rest ordered_binaryInsert[OF con p Cons.prems(1) Cons.prems(3)]]
    stable_binaryInsert[OF con a p Cons.prems(1) Cons.prems(3)]
  show ?case by (simp add: binaryInsertionSort_def)
qed

subsection \<open>The sorted array\<close>

lemma set_stableSort: "set (stableSort cmp xs) = set xs"
  unfolding stableSort_def by (induction xs) (auto simp: set_insort_by)

lemma length_stableSort: "length (stableSort cmp xs) = length xs"
  unfolding stableSort_def by (induction xs) (auto simp: length_insort_by)

lemma stableSort_Cons: "stableSort cmp (x # xs) = insort_by cmp x (stableSort cmp xs)"
  by (simp add: stableSort_def)

lemma stableSort_Nil: "stableSort cmp [] = []"
  by (simp add: stableSort_def)

lemma ordered_stableSort:
  assumes con: "consistent_comparator cmp S" and xs: "set xs \<subseteq> S"
  shows "sorted_wrt (\<lambda>x y. \<not> is_positive (sortCompare cmp x y)) (stableSort cmp xs)"
  using xs
proof (induction xs)
  case Nil
  show ?case by (simp add: stableSort_Nil)
next
  case (Cons x xs)
  then have "x \<in> S" "set (stableSort cmp xs) \<subseteq> S" by (auto simp: set_stableSort)
  with Cons show ?case
    by (simp add: stableSort_Cons ordered_insort_by[OF con])
qed

lemma stable_stableSort:
  assumes con: "consistent_comparator cmp S" and a: "a \<in> S" and xs: "set xs \<subseteq> S"
  shows "filter (\<lambda>r. is_zero (sortCompare cmp a r)) (stableSort cmp xs)
           = filter (\<lambda>r. is_zero (sortCompare cmp a r)) xs"
  using xs
proof (induction xs)
  case Nil
  show ?case by (simp add: stableSort_Nil)
next
  case (Cons x xs)
  then have x: "x \<in> S" and s: "set (stableSort cmp xs) \<subseteq> S" and xs: "set xs \<subseteq> S"
    by (auto simp: set_stableSort)
  show ?case
    using Cons.IH[OF xs] by (simp add: stableSort_Cons stable_insort_by[OF con a x s])
qed

lemma timSortShort_run:
  assumes "2 \<le> length xs"
  obtains n w where "countAndMakeRun cmp xs = (n, w)"
    and "timSortShort cmp xs = binaryInsertionSort cmp (take n w) (drop n xs)"
    and "set (take n w) = set (take n xs)"
proof -
  obtain n w where run: "countAndMakeRun cmp xs = (n, w)" by (cases "countAndMakeRun cmp xs")
  from countAndMakeRun_shape[OF run]
  have "drop n w = drop n xs" "set (take n w) = set (take n xs)" by simp_all
  with run assms that show thesis by (simp add: timSortShort_def)
qed

lemma set_timSortShort: "set (timSortShort cmp xs) = set xs"
proof (cases "2 \<le> length xs")
  case False
  then show ?thesis by (simp add: timSortShort_def)
next
  case True
  then obtain n w where "timSortShort cmp xs = binaryInsertionSort cmp (take n w) (drop n xs)"
    and "set (take n w) = set (take n xs)"
    by (rule timSortShort_run)
  moreover have "set (take n xs) \<union> set (drop n xs) = set xs"
    using set_append[of "take n xs" "drop n xs"] by simp
  ultimately show ?thesis by (simp add: set_binaryInsertionSort)
qed

lemma length_timSortShort: "length (timSortShort cmp xs) = length xs"
proof (cases "2 \<le> length xs")
  case False
  then show ?thesis by (simp add: timSortShort_def)
next
  case True
  obtain n w where run: "countAndMakeRun cmp xs = (n, w)" by (cases "countAndMakeRun cmp xs")
  from countAndMakeRun_shape[OF run]
  have "n \<le> length xs" "length w = length xs" by simp_all
  with run True show ?thesis
    by (simp add: timSortShort_def length_binaryInsertionSort)
qed

lemma ordered_timSortShort:
  assumes con: "consistent_comparator cmp S" and xs: "set xs \<subseteq> S"
  shows "sorted_wrt (\<lambda>x y. \<not> is_positive (sortCompare cmp x y)) (timSortShort cmp xs)"
proof (cases "2 \<le> length xs")
  case False
  then have "xs = [] \<or> (\<exists>x. xs = [x])" by (cases xs) (auto simp: not_le)
  then show ?thesis by (auto simp: timSortShort_def)
next
  case True
  then obtain n w where run: "countAndMakeRun cmp xs = (n, w)"
    and sort: "timSortShort cmp xs = binaryInsertionSort cmp (take n w) (drop n xs)"
    and set: "set (take n w) = set (take n xs)"
    by (rule timSortShort_run)
  have a: "set (take n w) \<subseteq> S" using set xs set_take_subset[of n xs] by blast
  have b: "set (drop n xs) \<subseteq> S" using xs set_drop_subset[of n xs] by blast
  from ordered_binaryInsertionSort[OF con a b countAndMakeRun_ordered[OF con xs run]] sort
  show ?thesis by simp
qed

lemma stable_timSortShort:
  assumes con: "consistent_comparator cmp S" and a: "a \<in> S" and xs: "set xs \<subseteq> S"
  shows "filter (\<lambda>r. is_zero (sortCompare cmp a r)) (timSortShort cmp xs)
           = filter (\<lambda>r. is_zero (sortCompare cmp a r)) xs"
proof (cases "2 \<le> length xs")
  case False
  then show ?thesis by (simp add: timSortShort_def)
next
  case True
  then obtain n w where run: "countAndMakeRun cmp xs = (n, w)"
    and srt: "timSortShort cmp xs = binaryInsertionSort cmp (take n w) (drop n xs)"
    and st: "set (take n w) = set (take n xs)"
    by (rule timSortShort_run)
  have s: "set (take n w) \<subseteq> S" using st xs set_take_subset[of n xs] by blast
  have r: "set (drop n xs) \<subseteq> S" using xs set_drop_subset[of n xs] by blast
  note ins = stable_binaryInsertionSort[OF con a s r countAndMakeRun_ordered[OF con xs run]]
  note rn = countAndMakeRun_stable[OF con a xs run]
  have "filter (\<lambda>r. is_zero (sortCompare cmp a r)) (take n xs)
      @ filter (\<lambda>r. is_zero (sortCompare cmp a r)) (drop n xs)
      = filter (\<lambda>r. is_zero (sortCompare cmp a r)) (take n xs @ drop n xs)"
    by (rule filter_append[symmetric])
  then have parts: "filter (\<lambda>r. is_zero (sortCompare cmp a r)) (take n xs)
      @ filter (\<lambda>r. is_zero (sortCompare cmp a r)) (drop n xs)
      = filter (\<lambda>r. is_zero (sortCompare cmp a r)) xs"
    by (simp only: append_take_drop_id)
  have "filter (\<lambda>r. is_zero (sortCompare cmp a r)) (timSortShort cmp xs)
      = filter (\<lambda>r. is_zero (sortCompare cmp a r)) (take n w) @
        filter (\<lambda>r. is_zero (sortCompare cmp a r)) (drop n xs)"
    by (simp only: srt ins filter_append)
  also have "\<dots> = filter (\<lambda>r. is_zero (sortCompare cmp a r)) (take n xs)
      @ filter (\<lambda>r. is_zero (sortCompare cmp a r)) (drop n xs)"
    by (simp only: rn)
  also note parts
  finally show ?thesis .
qed

lemma set_array_sort: "set (array_sort cmp xs) = set xs"
  by (simp add: array_sort_def set_timSortShort set_stableSort)

lemma length_array_sort: "length (array_sort cmp xs) = length xs"
  by (simp add: array_sort_def length_timSortShort length_stableSort)

lemma array_sort_Nil: "array_sort cmp [] = []"
  by (simp add: array_sort_def timSortShort_def)

lemma ordered_array_sort:
  assumes con: "consistent_comparator cmp S" and xs: "set xs \<subseteq> S"
  shows "sorted_wrt (\<lambda>x y. \<not> is_positive (sortCompare cmp x y)) (array_sort cmp xs)"
  using ordered_timSortShort[OF con xs] ordered_stableSort[OF con xs]
  by (simp add: array_sort_def)

lemma stable_array_sort:
  assumes con: "consistent_comparator cmp S" and a: "a \<in> S" and xs: "set xs \<subseteq> S"
  shows "filter (\<lambda>r. is_zero (sortCompare cmp a r)) (array_sort cmp xs)
           = filter (\<lambda>r. is_zero (sortCompare cmp a r)) xs"
  using stable_timSortShort[OF con a xs] stable_stableSort[OF con a xs]
  by (simp add: array_sort_def)

text \<open>
  A consistent comparison function leaves one arrangement that is ordered and stable, so with
  such a function the engine's steps and insertion from the right give the same array, at
  every length.
\<close>

lemma stable_ordered_unique:
  assumes con: "consistent_comparator cmp S"
  shows "set xs \<subseteq> S \<Longrightarrow> set ys \<subseteq> S
    \<Longrightarrow> sorted_wrt (\<lambda>x y. \<not> is_positive (sortCompare cmp x y)) xs
    \<Longrightarrow> sorted_wrt (\<lambda>x y. \<not> is_positive (sortCompare cmp x y)) ys
    \<Longrightarrow> (\<And>a. a \<in> S \<Longrightarrow> filter (\<lambda>r. is_zero (sortCompare cmp a r)) xs
                          = filter (\<lambda>r. is_zero (sortCompare cmp a r)) ys)
    \<Longrightarrow> xs = ys"
proof (induction xs arbitrary: ys)
  case Nil
  show ?case
  proof (cases ys)
    case Nil
    then show ?thesis by simp
  next
    case (Cons y ys')
    with Nil.prems have y: "y \<in> S" by simp
    from Nil.prems(5)[OF y] consistentD(1)[OF con y y y] Cons show ?thesis by simp
  qed
next
  case (Cons x xs)
  from Cons.prems have x: "x \<in> S" and xs: "set xs \<subseteq> S" by auto
  have xx: "is_zero (sortCompare cmp x x)" by (rule consistentD(1)[OF con x x x])
  from Cons.prems(5)[OF x] xx
  have fx: "filter (\<lambda>r. is_zero (sortCompare cmp x r)) ys
      = x # filter (\<lambda>r. is_zero (sortCompare cmp x r)) xs" by simp
  then have "ys \<noteq> []" by auto
  then obtain y ys' where ys: "ys = y # ys'" by (cases ys) auto
  with Cons.prems have y: "y \<in> S" and ys': "set ys' \<subseteq> S" by auto
  have yy: "is_zero (sortCompare cmp y y)" by (rule consistentD(1)[OF con y y y])
  from Cons.prems(5)[OF y] yy ys
  have fy: "filter (\<lambda>r. is_zero (sortCompare cmp y r)) (x # xs)
      = y # filter (\<lambda>r. is_zero (sortCompare cmp y r)) ys'" by simp
  have "x \<in> set (filter (\<lambda>r. is_zero (sortCompare cmp x r)) ys)" unfolding fx by simp
  then have xin: "x \<in> set ys" by simp
  have "y \<in> set (filter (\<lambda>r. is_zero (sortCompare cmp y r)) (x # xs))" unfolding fy by simp
  then have yin: "y \<in> set (x # xs)" by (simp del: filter.simps)
  have yx: "\<not> is_positive (sortCompare cmp y x)"
  proof (cases "x = y")
    case True
    with yy show ?thesis using sign_exclusive(2) by blast
  next
    case False
    with xin ys have "x \<in> set ys'" by simp
    with Cons.prems(4) ys show ?thesis by simp
  qed
  have xy: "\<not> is_positive (sortCompare cmp x y)"
  proof (cases "x = y")
    case True
    with xx show ?thesis using sign_exclusive(2) by blast
  next
    case False
    with yin have "y \<in> set xs" by simp
    with Cons.prems(3) show ?thesis by simp
  qed
  have "\<not> is_negative (sortCompare cmp x y)"
    using negative_imp_positive[OF con x y] yx by blast
  with xy have eq: "is_zero (sortCompare cmp x y)"
    using sign_cases[OF sortCompare_not_NaN, of cmp x y] by blast
  with fx ys have head: "x = y" by simp
  have tails: "filter (\<lambda>r. is_zero (sortCompare cmp a r)) xs
      = filter (\<lambda>r. is_zero (sortCompare cmp a r)) ys'" if "a \<in> S" for a
    using Cons.prems(5)[OF that] ys head by (simp split: if_splits)
  from Cons.prems(3) have sx: "sorted_wrt (\<lambda>x y. \<not> is_positive (sortCompare cmp x y)) xs"
    by simp
  from Cons.prems(4) ys have sy: "sorted_wrt (\<lambda>x y. \<not> is_positive (sortCompare cmp x y)) ys'"
    by simp
  from Cons.IH[OF xs ys' sx sy tails] head ys show ?case by simp
qed

lemma array_sort_stableSort:
  assumes con: "consistent_comparator cmp S" and xs: "set xs \<subseteq> S"
  shows "array_sort cmp xs = stableSort cmp xs"
proof (rule stable_ordered_unique[OF con])
  show "set (array_sort cmp xs) \<subseteq> S" using xs by (simp add: set_array_sort)
  show "set (stableSort cmp xs) \<subseteq> S" using xs by (simp add: set_stableSort)
  show "sorted_wrt (\<lambda>x y. \<not> is_positive (sortCompare cmp x y)) (array_sort cmp xs)"
    by (rule ordered_array_sort[OF con xs])
  show "sorted_wrt (\<lambda>x y. \<not> is_positive (sortCompare cmp x y)) (stableSort cmp xs)"
    by (rule ordered_stableSort[OF con xs])
  fix a assume a: "a \<in> S"
  show "filter (\<lambda>r. is_zero (sortCompare cmp a r)) (array_sort cmp xs)
      = filter (\<lambda>r. is_zero (sortCompare cmp a r)) (stableSort cmp xs)"
    by (simp only: stable_array_sort[OF con a xs] stable_stableSort[OF con a xs])
qed

lemma consistentI:
  assumes "\<And>a. a \<in> S \<Longrightarrow> is_zero (sortCompare cmp a a)"
    and "\<And>a b. a \<in> S \<Longrightarrow> b \<in> S \<Longrightarrow> is_zero (sortCompare cmp a b)
           \<Longrightarrow> is_zero (sortCompare cmp b a)"
    and "\<And>a b c. a \<in> S \<Longrightarrow> b \<in> S \<Longrightarrow> c \<in> S \<Longrightarrow> is_zero (sortCompare cmp a b)
           \<Longrightarrow> is_zero (sortCompare cmp b c) \<Longrightarrow> is_zero (sortCompare cmp a c)"
    and "\<And>a b c. a \<in> S \<Longrightarrow> b \<in> S \<Longrightarrow> c \<in> S \<Longrightarrow> is_negative (sortCompare cmp a b)
           \<Longrightarrow> is_negative (sortCompare cmp b c) \<Longrightarrow> is_negative (sortCompare cmp a c)"
    and "\<And>a b c. a \<in> S \<Longrightarrow> b \<in> S \<Longrightarrow> c \<in> S \<Longrightarrow> is_positive (sortCompare cmp a b)
           \<Longrightarrow> is_positive (sortCompare cmp b c) \<Longrightarrow> is_positive (sortCompare cmp a c)"
  shows "consistent_comparator cmp S"
  unfolding consistent_comparator_def
proof (intro ballI conjI impI)
  fix a b c assume "a \<in> S" "b \<in> S" "c \<in> S"
  then show "is_zero (sortCompare cmp a a)" using assms(1) by blast
next
  fix a b c assume "a \<in> S" "b \<in> S" "c \<in> S" "is_zero (sortCompare cmp a b)"
  then show "is_zero (sortCompare cmp b a)" using assms(2) by blast
next
  fix a b c assume "a \<in> S" "b \<in> S" "c \<in> S"
    "is_zero (sortCompare cmp a b) \<and> is_zero (sortCompare cmp b c)"
  then show "is_zero (sortCompare cmp a c)" using assms(3) by blast
next
  fix a b c assume "a \<in> S" "b \<in> S" "c \<in> S"
    "is_negative (sortCompare cmp a b) \<and> is_negative (sortCompare cmp b c)"
  then show "is_negative (sortCompare cmp a c)" using assms(4) by blast
next
  fix a b c assume "a \<in> S" "b \<in> S" "c \<in> S"
    "is_positive (sortCompare cmp a b) \<and> is_positive (sortCompare cmp b c)"
  then show "is_positive (sortCompare cmp a c)" using assms(5) by blast
qed

lemma consistent_key:
  assumes con: "consistent_comparator kc (key ` S)"
  shows "consistent_comparator (\<lambda>a b. kc (key a) (key b)) S"
proof (rule consistentI)
  fix a assume "a \<in> S"
  then show "is_zero (sortCompare (\<lambda>a b. kc (key a) (key b)) a a)"
    using consistentD(1)[OF con, of "key a" "key a" "key a"] by (simp add: sortCompare_def)
next
  fix a b assume "a \<in> S" "b \<in> S" "is_zero (sortCompare (\<lambda>a b. kc (key a) (key b)) a b)"
  then show "is_zero (sortCompare (\<lambda>a b. kc (key a) (key b)) b a)"
    using consistentD(2)[OF con, of "key a" "key b" "key a"] by (simp add: sortCompare_def)
next
  fix a b c assume "a \<in> S" "b \<in> S" "c \<in> S"
    "is_zero (sortCompare (\<lambda>a b. kc (key a) (key b)) a b)"
    "is_zero (sortCompare (\<lambda>a b. kc (key a) (key b)) b c)"
  then show "is_zero (sortCompare (\<lambda>a b. kc (key a) (key b)) a c)"
    using consistentD(3)[OF con, of "key a" "key b" "key c"] by (simp add: sortCompare_def)
next
  fix a b c assume "a \<in> S" "b \<in> S" "c \<in> S"
    "is_negative (sortCompare (\<lambda>a b. kc (key a) (key b)) a b)"
    "is_negative (sortCompare (\<lambda>a b. kc (key a) (key b)) b c)"
  then show "is_negative (sortCompare (\<lambda>a b. kc (key a) (key b)) a c)"
    using consistentD(4)[OF con, of "key a" "key b" "key c"] by (simp add: sortCompare_def)
next
  fix a b c assume "a \<in> S" "b \<in> S" "c \<in> S"
    "is_positive (sortCompare (\<lambda>a b. kc (key a) (key b)) a b)"
    "is_positive (sortCompare (\<lambda>a b. kc (key a) (key b)) b c)"
  then show "is_positive (sortCompare (\<lambda>a b. kc (key a) (key b)) a c)"
    using consistentD(5)[OF con, of "key a" "key b" "key c"] by (simp add: sortCompare_def)
qed

lemma consistent_flip:
  assumes con: "consistent_comparator cmp S"
  shows "consistent_comparator (\<lambda>a b. cmp b a) S"
proof (rule consistentI)
  fix a assume "a \<in> S"
  then show "is_zero (sortCompare (\<lambda>a b. cmp b a) a a)"
    using consistentD(1)[OF con, of a a a] by (simp add: sortCompare_def)
next
  fix a b assume "a \<in> S" "b \<in> S" "is_zero (sortCompare (\<lambda>a b. cmp b a) a b)"
  then show "is_zero (sortCompare (\<lambda>a b. cmp b a) b a)"
    using consistentD(2)[OF con, of b a a] by (simp add: sortCompare_def)
next
  fix a b c assume "a \<in> S" "b \<in> S" "c \<in> S"
    "is_zero (sortCompare (\<lambda>a b. cmp b a) a b)" "is_zero (sortCompare (\<lambda>a b. cmp b a) b c)"
  then show "is_zero (sortCompare (\<lambda>a b. cmp b a) a c)"
    using consistentD(3)[OF con, of c b a] by (simp add: sortCompare_def)
next
  fix a b c assume "a \<in> S" "b \<in> S" "c \<in> S"
    "is_negative (sortCompare (\<lambda>a b. cmp b a) a b)"
    "is_negative (sortCompare (\<lambda>a b. cmp b a) b c)"
  then show "is_negative (sortCompare (\<lambda>a b. cmp b a) a c)"
    using consistentD(4)[OF con, of c b a] by (simp add: sortCompare_def)
next
  fix a b c assume "a \<in> S" "b \<in> S" "c \<in> S"
    "is_positive (sortCompare (\<lambda>a b. cmp b a) a b)"
    "is_positive (sortCompare (\<lambda>a b. cmp b a) b c)"
  then show "is_positive (sortCompare (\<lambda>a b. cmp b a) a c)"
    using consistentD(5)[OF con, of c b a] by (simp add: sortCompare_def)
qed

lemma js_minus_consistent: "consistent_comparator js_minus {v. v \<noteq> NaN}"
proof (rule consistentI)
  fix a :: jsnum assume "a \<in> {v. v \<noteq> NaN}"
  then show "is_zero (sortCompare js_minus a a)"
    by (cases a) (simp_all add: sortCompare_def)
next
  fix a b :: jsnum assume "a \<in> {v. v \<noteq> NaN}" "b \<in> {v. v \<noteq> NaN}"
    "is_zero (sortCompare js_minus a b)"
  then show "is_zero (sortCompare js_minus b a)"
    by (cases a; cases b) (simp_all add: sortCompare_def)
next
  fix a b c :: jsnum assume "a \<in> {v. v \<noteq> NaN}" "b \<in> {v. v \<noteq> NaN}" "c \<in> {v. v \<noteq> NaN}"
    "is_zero (sortCompare js_minus a b)" "is_zero (sortCompare js_minus b c)"
  then show "is_zero (sortCompare js_minus a c)"
    by (cases a; cases b; cases c) (simp_all add: sortCompare_def)
next
  fix a b c :: jsnum assume "a \<in> {v. v \<noteq> NaN}" "b \<in> {v. v \<noteq> NaN}" "c \<in> {v. v \<noteq> NaN}"
    "is_negative (sortCompare js_minus a b)" "is_negative (sortCompare js_minus b c)"
  then show "is_negative (sortCompare js_minus a c)"
    by (cases a; cases b; cases c) (simp_all add: sortCompare_def)
next
  fix a b c :: jsnum assume "a \<in> {v. v \<noteq> NaN}" "b \<in> {v. v \<noteq> NaN}" "c \<in> {v. v \<noteq> NaN}"
    "is_positive (sortCompare js_minus a b)" "is_positive (sortCompare js_minus b c)"
  then show "is_positive (sortCompare js_minus a c)"
    by (cases a; cases b; cases c) (simp_all add: sortCompare_def)
qed

lemma codeUnitCompare_consistent: "consistent_localeCompare codeUnitCompare"
  unfolding consistent_localeCompare_def
proof (rule consistentI)
  fix a :: string
  show "is_zero (sortCompare (\<lambda>a b. Fin (of_int (codeUnitCompare a b))) a a)"
    by (simp add: sortCompare_def codeUnitCompare_def)
next
  fix a b :: string
  assume "is_zero (sortCompare (\<lambda>a b. Fin (of_int (codeUnitCompare a b))) a b)"
  then show "is_zero (sortCompare (\<lambda>a b. Fin (of_int (codeUnitCompare a b))) b a)"
    by (simp add: sortCompare_def codeUnitCompare_def split: if_splits)
next
  fix a b c :: string
  assume "is_zero (sortCompare (\<lambda>a b. Fin (of_int (codeUnitCompare a b))) a b)"
    "is_zero (sortCompare (\<lambda>a b. Fin (of_int (codeUnitCompare a b))) b c)"
  then show "is_zero (sortCompare (\<lambda>a b. Fin (of_int (codeUnitCompare a b))) a c)"
    by (simp add: sortCompare_def codeUnitCompare_def split: if_splits)
next
  fix a b c :: string
  assume "is_negative (sortCompare (\<lambda>a b. Fin (of_int (codeUnitCompare a b))) a b)"
    "is_negative (sortCompare (\<lambda>a b. Fin (of_int (codeUnitCompare a b))) b c)"
  then show "is_negative (sortCompare (\<lambda>a b. Fin (of_int (codeUnitCompare a b))) a c)"
    by (auto simp add: sortCompare_def codeUnitCompare_def split: if_splits)
next
  fix a b c :: string
  assume "is_positive (sortCompare (\<lambda>a b. Fin (of_int (codeUnitCompare a b))) a b)"
    "is_positive (sortCompare (\<lambda>a b. Fin (of_int (codeUnitCompare a b))) b c)"
  then show "is_positive (sortCompare (\<lambda>a b. Fin (of_int (codeUnitCompare a b))) a c)"
    by (auto simp add: sortCompare_def codeUnitCompare_def split: if_splits)
qed

lemma numeric_key_consistent:
  assumes "\<forall>r\<in>S. key r \<noteq> NaN"
  shows "consistent_comparator (\<lambda>a b. js_minus (key a) (key b)) S"
proof (rule consistent_key)
  from assms have "key ` S \<subseteq> {v. v \<noteq> NaN}" by auto
  then show "consistent_comparator js_minus (key ` S)"
    by (rule consistent_subset[OF js_minus_consistent])
qed

lemma string_key_consistent:
  assumes "consistent_localeCompare lc"
  shows "consistent_comparator (\<lambda>a b. Fin (of_int (lc (key a) (key b)))) S"
proof -
  have "consistent_comparator (\<lambda>a b. Fin (of_int (lc a b))) (key ` S)"
    using assms unfolding consistent_localeCompare_def
    by (rule consistent_subset) simp
  then show ?thesis by (rule consistent_key)
qed

lemma compareFn_forms:
  "compareFn lc SkuId Asc = (\<lambda>a b. Fin (of_int (lc (sku_id a) (sku_id b))))"
  "compareFn lc SkuId Desc = (\<lambda>a b. (\<lambda>a b. Fin (of_int (lc (sku_id a) (sku_id b)))) b a)"
  "compareFn lc StoreId Asc = (\<lambda>a b. Fin (of_int (lc (store_id a) (store_id b))))"
  "compareFn lc StoreId Desc = (\<lambda>a b. (\<lambda>a b. Fin (of_int (lc (store_id a) (store_id b)))) b a)"
  "compareFn lc DaysToStockout Asc
     = (\<lambda>a b. js_minus (sortKey DaysToStockout a) (sortKey DaysToStockout b))"
  "compareFn lc DaysToStockout Desc
     = (\<lambda>a b. (\<lambda>a b. js_minus (sortKey DaysToStockout a) (sortKey DaysToStockout b)) b a)"
  "compareFn lc RecommendedReorderQuantity Asc
     = (\<lambda>a b. js_minus (sortKey RecommendedReorderQuantity a)
                        (sortKey RecommendedReorderQuantity b))"
  "compareFn lc RecommendedReorderQuantity Desc
     = (\<lambda>a b. (\<lambda>a b. js_minus (sortKey RecommendedReorderQuantity a)
                        (sortKey RecommendedReorderQuantity b)) b a)"
  by (intro ext, simp add: Let_def)+

lemma compareFn_consistent:
  assumes lc: "f = SkuId \<or> f = StoreId \<Longrightarrow> consistent_localeCompare lc"
    and keys: "\<forall>r\<in>S. sortable f r"
  shows "consistent_comparator (compareFn lc f ord) S"
proof (cases f)
  case SkuId
  with lc have "consistent_comparator (\<lambda>a b. Fin (of_int (lc (sku_id a) (sku_id b)))) S"
    by (simp add: string_key_consistent)
  then show ?thesis
    unfolding SkuId by (cases ord) (simp_all only: compareFn_forms consistent_flip)
next
  case StoreId
  with lc have "consistent_comparator (\<lambda>a b. Fin (of_int (lc (store_id a) (store_id b)))) S"
    by (simp add: string_key_consistent)
  then show ?thesis
    unfolding StoreId by (cases ord) (simp_all only: compareFn_forms consistent_flip)
next
  case DaysToStockout
  with keys have "consistent_comparator
      (\<lambda>a b. js_minus (sortKey DaysToStockout a) (sortKey DaysToStockout b)) S"
    by (intro numeric_key_consistent) (simp add: sortable_def)
  then show ?thesis
    unfolding DaysToStockout by (cases ord) (simp_all only: compareFn_forms consistent_flip)
next
  case RecommendedReorderQuantity
  with keys have "consistent_comparator
      (\<lambda>a b. js_minus (sortKey RecommendedReorderQuantity a)
                       (sortKey RecommendedReorderQuantity b)) S"
    by (intro numeric_key_consistent) (simp add: sortable_def)
  then show ?thesis
    unfolding RecommendedReorderQuantity
    by (cases ord) (simp_all only: compareFn_forms consistent_flip)
qed

lemma sample_keys:
  "days_to_stockout rec_tshirt = Some (Fin 30)"
  "days_to_stockout rec_jeans = Some (Fin 2)"
  "days_to_stockout rec_socks = Some (Fin 2)"
  "days_to_stockout rec_cap = Some PInf"
  "days_to_stockout rec_belt = Some (Fin 7)"
  by (simp_all add: rec_tshirt_def rec_jeans_def rec_socks_def rec_cap_def rec_belt_def)

lemma days_state_criteria:
  "sortField days_state = DaysToStockout" "sortOrder days_state = Asc"
  by (simp_all add: days_state_def sample_state_def)

lemma days_state_filters: "applyFilters days_state = [rec_tshirt, rec_jeans, rec_socks, rec_cap, rec_belt]"
  by (simp add: days_state_def sample_state_def applyFilters_def searchStep_def criticalStep_def
      categoryStep_def storeStep_def searchActive_def criticalActive_def categoryActive_def
      storeActive_def trim_def)

lemma days_state_view:
  "filteredView lc days_state = [rec_jeans, rec_socks, rec_belt, rec_tshirt, rec_cap]"
  by code_simp

text \<open>
  Where the comparison function is consistent on the view the sort is stable. For a record
  \<open>a\<close> of the filtered sequence, take the records that compare equal to \<open>a\<close> on the active
  sort field (the comparison function returns zero): they are the same sequence, in the same
  order, after the sort as before it. So any two such records keep their relative order, for
  each of the four sort fields and both directions. The hypotheses are what makes the
  comparison function a consistent one: \<^verbatim>\<open>localeCompare\<close> is consistent, and on a numeric
  field every record of the view carries a number.
\<close>

lemma sort_is_stable_when_consistent:
  assumes lc: "consistent_localeCompare lc"
    and keys: "list_all (sortable (sortField s)) (applyFilters s)"
    and a: "a \<in> set (applyFilters s)"
  shows "filter (\<lambda>r. is_zero (sortCompare (compareFn lc (sortField s) (sortOrder s)) a r))
           (filteredView lc s)
         = filter (\<lambda>r. is_zero (sortCompare (compareFn lc (sortField s) (sortOrder s)) a r))
           (applyFilters s)"
proof -
  from keys have "\<forall>r\<in>set (applyFilters s). sortable (sortField s) r"
    by (simp add: list_all_iff)
  with lc have "consistent_comparator (compareFn lc (sortField s) (sortOrder s))
      (set (applyFilters s))"
    by (intro compareFn_consistent)
  from stable_array_sort[OF this a subset_refl] show ?thesis
    by (simp add: filteredView_def)
qed

lemma sort_is_stable_example:
  "consistent_localeCompare codeUnitCompare \<and>
   list_all (sortable (sortField days_state)) (applyFilters days_state) \<and>
   applyFilters days_state = [rec_tshirt, rec_jeans, rec_socks, rec_cap, rec_belt] \<and>
   filter (\<lambda>r. is_zero (sortCompare (compareFn codeUnitCompare DaysToStockout Asc) rec_jeans r))
     (filteredView codeUnitCompare days_state) = [rec_jeans, rec_socks]"
proof -
  have keys: "list_all (sortable (sortField days_state)) (applyFilters days_state)"
    unfolding days_state_filters
    by (simp add: days_state_def sample_state_def sortable_def sample_keys)
  have mem: "rec_jeans \<in> set (applyFilters days_state)"
    unfolding days_state_filters by simp
  have "filter (\<lambda>r. is_zero (sortCompare (compareFn codeUnitCompare DaysToStockout Asc) rec_jeans r))
     (applyFilters days_state) = [rec_jeans, rec_socks]"
    unfolding days_state_filters
    by (simp add: sortCompare_def compareFn_forms sample_keys)
  with sort_is_stable_when_consistent[OF codeUnitCompare_consistent keys mem] keys
    codeUnitCompare_consistent
  show ?thesis
    by (simp add: days_state_filters days_state_criteria)
qed

text \<open>
  C2. The sort of the filtered view is not stable on every view. A record that comes without
  \<^verbatim>\<open>recommended_reorder_quantity\<close> (the table and the export print 0 for it) makes the
  comparison function return NaN against every other record, which \<^verbatim>\<open>sort\<close> reads as
  equal; the function is then no consistent comparator, and the engine's insertion by binary
  search lets a record pass one it equals. On the view with the quantities 10, 10, 50, 10,
  none, 20, 20, sorted by quantity ascending, the two records with quantity 20 change places:
  Q6 stood before Q7, and the sorted view has Q7 before Q6, with the 50 between them. On the
  view with \<^verbatim>\<open>days_to_stockout\<close> 2, 0, none, 1, sorted by days ascending, K3 ends before
  K2, which stood before it and which the comparison function reports equal to it.
\<close>

theorem sort_swaps_equal_records:
  "applyFilters reorder_state = [rec_q1, rec_q2, rec_q3, rec_q4, rec_q5, rec_q6, rec_q7] \<and>
   sortField reorder_state = RecommendedReorderQuantity \<and>
   sortOrder reorder_state = Asc \<and>
   recommended_reorder_quantity rec_q6 = Some (Fin 20) \<and>
   recommended_reorder_quantity rec_q7 = Some (Fin 20) \<and>
   is_zero (sortCompare (compareFn lc RecommendedReorderQuantity Asc) rec_q6 rec_q7) \<and>
   filteredView lc reorder_state = [rec_q1, rec_q2, rec_q4, rec_q7, rec_q3, rec_q5, rec_q6] \<and>
   applyFilters missing_days_state = [rec_k0, rec_k1, rec_k2, rec_k3] \<and>
   sortField missing_days_state = DaysToStockout \<and>
   sortOrder missing_days_state = Asc \<and>
   is_zero (sortCompare (compareFn lc DaysToStockout Asc) rec_k2 rec_k3) \<and>
   filteredView lc missing_days_state = [rec_k1, rec_k3, rec_k0, rec_k2]"
  by (intro conjI) code_simp+

text \<open>
  Where every record of the view carries a number on the numeric sort field, a record whose
  value is positive infinity stands after every record with a finite value when the direction
  is ascending, and before every such record when it is descending: of two positions of the
  sorted view, one holding infinity and one a finite number, the infinite one is the later one
  ascending and the earlier one descending.
\<close>

lemma infinity_sorts_after_finite_when_consistent:
  assumes numeric: "sortField s = DaysToStockout \<or> sortField s = RecommendedReorderQuantity"
    and keys: "list_all (sortable (sortField s)) (applyFilters s)"
    and i: "i < length (filteredView lc s)"
    and j: "j < length (filteredView lc s)"
    and inf: "sortKey (sortField s) (filteredView lc s ! i) = PInf"
    and fin: "sortKey (sortField s) (filteredView lc s ! j) = Fin q"
  shows "(sortOrder s = Asc \<longrightarrow> j < i) \<and> (sortOrder s = Desc \<longrightarrow> i < j)"
proof -
  let ?cmp = "compareFn lc (sortField s) (sortOrder s)"
  let ?v = "filteredView lc s"
  from keys have "\<forall>r\<in>set (applyFilters s). sortable (sortField s) r"
    by (simp add: list_all_iff)
  with numeric have "consistent_comparator ?cmp (set (applyFilters s))"
    by (intro compareFn_consistent) auto
  then have "sorted_wrt (\<lambda>x y. \<not> is_positive (sortCompare ?cmp x y)) ?v"
    unfolding filteredView_def by (rule ordered_array_sort) simp
  then have ord: "\<not> is_positive (sortCompare ?cmp (?v ! m) (?v ! n))"
    if "m < n" "n < length ?v" for m n
    using that by (simp add: sorted_wrt_iff_nth_less)
  from inf fin have ne: "i \<noteq> j" by auto
  have asc: "j < i" if "sortOrder s = Asc"
  proof (rule ccontr)
    assume "\<not> j < i"
    with ne have "i < j" by simp
    from ord[OF this j] numeric inf fin that show False
      by (auto simp: sortCompare_def Let_def)
  qed
  have desc: "i < j" if "sortOrder s = Desc"
  proof (rule ccontr)
    assume "\<not> i < j"
    with ne have "j < i" by simp
    from ord[OF this i] numeric inf fin that show False
      by (auto simp: sortCompare_def Let_def)
  qed
  from asc desc show ?thesis by blast
qed

lemma infinity_sorts_after_finite_example:
  "list_all (sortable (sortField days_state)) (applyFilters days_state) \<and>
   sortOrder days_state = Asc \<and>
   sortKey DaysToStockout (filteredView codeUnitCompare days_state ! 4) = PInf \<and>
   sortKey DaysToStockout (filteredView codeUnitCompare days_state ! 3) = Fin 30 \<and>
   (3::nat) < 4"
proof -
  have f: "sortField days_state = DaysToStockout" and o: "sortOrder days_state = Asc"
    by (simp_all add: days_state_def sample_state_def)
  have keys: "list_all (sortable (sortField days_state)) (applyFilters days_state)"
    unfolding days_state_filters f by (simp add: sortable_def sample_keys)
  have i: "4 < length (filteredView codeUnitCompare days_state)"
    and j: "3 < length (filteredView codeUnitCompare days_state)"
    by (simp_all add: days_state_view)
  have inf: "sortKey (sortField days_state) (filteredView codeUnitCompare days_state ! 4) = PInf"
    and fin: "sortKey (sortField days_state) (filteredView codeUnitCompare days_state ! 3) = Fin 30"
    by (simp_all add: f days_state_view sample_keys)
  from infinity_sorts_after_finite_when_consistent[OF _ keys i j inf fin] f o keys inf fin
  show ?thesis by simp
qed

text \<open>
  C3. A record whose value is positive infinity is not always placed after the finite values
  when ascending, nor before them when descending. A record that lacks the sort field
  compares as equal (NaN) with both of its neighbours, so the engine finds the array already
  in order and leaves it as it is. The view infinity, none, 3 sorted ascending stays
  infinity, none, 3, on \<^verbatim>\<open>days_to_stockout\<close> and on \<^verbatim>\<open>recommended_reorder_quantity\<close>:
  infinity is first and the finite value last. The view 3, none, infinity sorted descending
  on \<^verbatim>\<open>days_to_stockout\<close> stays 3, none, infinity: the finite value is first and infinity
  last.
\<close>

theorem infinity_misplaced_beside_missing_value:
  "applyFilters infinity_days_state = [rec_n0, rec_n1, rec_n2] \<and>
   sortField infinity_days_state = DaysToStockout \<and>
   sortOrder infinity_days_state = Asc \<and>
   sortKey DaysToStockout rec_n0 = PInf \<and>
   sortKey DaysToStockout rec_n1 = NaN \<and>
   sortKey DaysToStockout rec_n2 = Fin 3 \<and>
   filteredView lc infinity_days_state = [rec_n0, rec_n1, rec_n2] \<and>
   applyFilters infinity_quantity_state = [rec_n0, rec_n1, rec_n2] \<and>
   sortField infinity_quantity_state = RecommendedReorderQuantity \<and>
   sortOrder infinity_quantity_state = Asc \<and>
   sortKey RecommendedReorderQuantity rec_n0 = PInf \<and>
   sortKey RecommendedReorderQuantity rec_n1 = NaN \<and>
   sortKey RecommendedReorderQuantity rec_n2 = Fin 3 \<and>
   filteredView lc infinity_quantity_state = [rec_n0, rec_n1, rec_n2] \<and>
   applyFilters infinity_descending_state = [rec_n2, rec_n1, rec_n0] \<and>
   sortField infinity_descending_state = DaysToStockout \<and>
   sortOrder infinity_descending_state = Desc \<and>
   filteredView lc infinity_descending_state = [rec_n2, rec_n1, rec_n0]"
  by (intro conjI) code_simp+

section \<open>Properties of the filters\<close>

lemma startsWith_iff: "startsWith s t \<longleftrightarrow> (\<exists>q. s = t @ q)"
  by (induction s t rule: startsWith.induct) auto

lemma str_includes_iff: "str_includes s t \<longleftrightarrow> (\<exists>p q. s = p @ t @ q)"
proof (induction s)
  case Nil
  show ?case by auto
next
  case (Cons x xs)
  show ?case
  proof
    assume "str_includes (x # xs) t"
    then consider "startsWith (x # xs) t" | "str_includes xs t" by auto
    then show "\<exists>p q. x # xs = p @ t @ q"
    proof cases
      case 1
      then obtain q where "x # xs = t @ q" by (auto simp: startsWith_iff)
      then have "x # xs = [] @ t @ q" by simp
      then show ?thesis by blast
    next
      case 2
      with Cons obtain p q where "xs = p @ t @ q" by blast
      then have "x # xs = (x # p) @ t @ q" by simp
      then show ?thesis by blast
    qed
  next
    assume "\<exists>p q. x # xs = p @ t @ q"
    then obtain p q where pq: "x # xs = p @ t @ q" by blast
    show "str_includes (x # xs) t"
    proof (cases p)
      case Nil
      with pq have "startsWith (x # xs) t" by (auto simp: startsWith_iff)
      then show ?thesis by simp
    next
      case (Cons y ys)
      with pq have "xs = ys @ t @ q" by simp
      with Cons.IH have "str_includes xs t" by blast
      then show ?thesis by simp
    qed
  qed
qed

lemma filter_step_commute:
  "(if a then filter p (if b then filter q xs else xs) else (if b then filter q xs else xs))
     = (if b then filter q (if a then filter p xs else xs) else (if a then filter p xs else xs))"
  by (auto intro: filter_cong)

lemma steps_commute:
  "storeStep s (categoryStep s xs) = categoryStep s (storeStep s xs)"
  "storeStep s (criticalStep s xs) = criticalStep s (storeStep s xs)"
  "storeStep s (searchStep s xs) = searchStep s (storeStep s xs)"
  "categoryStep s (criticalStep s xs) = criticalStep s (categoryStep s xs)"
  "categoryStep s (searchStep s xs) = searchStep s (categoryStep s xs)"
  "criticalStep s (searchStep s xs) = searchStep s (criticalStep s xs)"
  unfolding storeStep_def categoryStep_def criticalStep_def searchStep_def
  by (rule filter_step_commute)+

lemma applyFilters_conjunction: "applyFilters s = filter (passesFilters s) (records s)"
  unfolding applyFilters_def storeStep_def categoryStep_def criticalStep_def searchStep_def
    passesFilters_def
  by (auto intro: filter_cong)

text \<open>
  C8. The four filters are guarded \<^verbatim>\<open>filter\<close> calls on pure predicates, combined by
  conjunction: any two of the four steps give the same array in either order (the same
  records, even in the same order), and the array that reaches the sort is the snapshot
  filtered by the conjunction of the predicates whose guard is on. A search term that is empty
  (or blank) filters nothing; otherwise a record matches when the trimmed, lower-cased term
  occurs anywhere in its lower-cased \<^verbatim>\<open>sku_id\<close>.
\<close>

theorem filters_commute:
  "(\<forall>f\<in>set (filterSteps s). \<forall>g\<in>set (filterSteps s). f (g xs) = g (f xs)) \<and>
   applyFilters s = filter (passesFilters s) (records s) \<and>
   (trim (search s) = [] \<longrightarrow> searchStep s xs = xs) \<and>
   (searchActive s \<longrightarrow>
      searchMatches s r = (\<exists>p q. toLowerCase (sku_id r) = p @ toLowerCase (trim (search s)) @ q))"
proof -
  have "\<forall>f\<in>set (filterSteps s). \<forall>g\<in>set (filterSteps s). f (g xs) = g (f xs)"
    unfolding filterSteps_def by (simp add: steps_commute)
  moreover have "trim (search s) = [] \<longrightarrow> searchStep s xs = xs"
    by (simp add: searchStep_def searchActive_def)
  moreover have "searchMatches s r
      = (\<exists>p q. toLowerCase (sku_id r) = p @ toLowerCase (trim (search s)) @ q)"
    by (simp add: searchMatches_def str_includes_iff)
  ultimately show ?thesis
    using applyFilters_conjunction by blast
qed

lemma filtered_state_filters: "applyFilters filtered_state = [rec_jeans]"
  by code_simp

lemma filtered_state_store_search:
  "storeStep filtered_state (searchStep filtered_state (records filtered_state)) = [rec_jeans]"
  by code_simp

theorem filters_commute_witness:
  "storeStep filtered_state (searchStep filtered_state (records filtered_state))
     = searchStep filtered_state (storeStep filtered_state (records filtered_state)) \<and>
   searchStep filtered_state (storeStep filtered_state (records filtered_state)) = [rec_jeans] \<and>
   applyFilters filtered_state = [rec_jeans] \<and>
   filter (passesFilters filtered_state) (records filtered_state) = [rec_jeans]"
proof -
  have mem: "storeStep filtered_state \<in> set (filterSteps filtered_state)"
    "searchStep filtered_state \<in> set (filterSteps filtered_state)"
    by (simp_all add: filterSteps_def)
  from filters_commute[of filtered_state "records filtered_state" rec_jeans] mem
    filtered_state_store_search filtered_state_filters
  show ?thesis by metis
qed

section \<open>The aggregates and the filters\<close>

lemma filtered_state_eq:
  "filtered_state = sample_state\<lparr>storeFilter := ''STORE_DELHI'', categoryFilter := ''ALL'',
      showCriticalOnly := True, search := '' Blue ''\<rparr>"
  by (simp add: filtered_state_def sample_state_def)

lemma sample_aggregates:
  "criticalByStore sample_state = [(''STORE_DELHI'', PNumber 1), (''STORE_MUMBAI'', PNumber 1)]"
  "topCritical sample_state = [rec_jeans, rec_socks]"
  by code_simp+

lemma view_lengths:
  "length (filteredView lc filtered_state) = 1" "length (filteredView lc sample_state) = 5"
proof -
  have "applyFilters filtered_state = [rec_jeans]" by code_simp
  then show "length (filteredView lc filtered_state) = 1"
    by (simp add: filteredView_def length_array_sort)
  have "length (applyFilters sample_state) = 5" by code_simp
  then show "length (filteredView lc sample_state) = 5"
    by (simp add: filteredView_def length_array_sort)
qed

text \<open>
  C1. The status counts, \<^verbatim>\<open>criticalByStore\<close> and \<^verbatim>\<open>topCritical\<close> are computed from the
  whole \<^verbatim>\<open>records\<close> array: whatever the store filter, the category filter, the
  critical-only switch and the search term are set to, each has the value it has on the page
  as it was. The filtered view does depend on the criteria: on the sample snapshot it changes
  when three of the filters are set.
\<close>

theorem aggregates_ignore_filters:
  "countCritical (s\<lparr>storeFilter := a, categoryFilter := b, showCriticalOnly := c, search := d\<rparr>)
     = countCritical s \<and>
   countWarning (s\<lparr>storeFilter := a, categoryFilter := b, showCriticalOnly := c, search := d\<rparr>)
     = countWarning s \<and>
   countSafe (s\<lparr>storeFilter := a, categoryFilter := b, showCriticalOnly := c, search := d\<rparr>)
     = countSafe s \<and>
   criticalByStore (s\<lparr>storeFilter := a, categoryFilter := b, showCriticalOnly := c, search := d\<rparr>)
     = criticalByStore s \<and>
   topCritical (s\<lparr>storeFilter := a, categoryFilter := b, showCriticalOnly := c, search := d\<rparr>)
     = topCritical s \<and>
   filteredView lc filtered_state \<noteq> filteredView lc sample_state"
proof -
  have "filteredView lc filtered_state \<noteq> filteredView lc sample_state"
    using view_lengths[of lc] by auto
  then show ?thesis
    by (simp add: countCritical_def countWarning_def countSafe_def criticalByStore_def
        topCritical_def)
qed

theorem aggregates_ignore_filters_witness:
  "countCritical filtered_state = 2 \<and> countCritical sample_state = 2 \<and>
   countWarning filtered_state = 0 \<and> countSafe filtered_state = 2 \<and>
   criticalByStore filtered_state
     = [(''STORE_DELHI'', PNumber 1), (''STORE_MUMBAI'', PNumber 1)] \<and>
   topCritical filtered_state = [rec_jeans, rec_socks] \<and>
   length (filteredView codeUnitCompare filtered_state) = 1 \<and>
   length (filteredView codeUnitCompare sample_state) = 5"
  using aggregates_ignore_filters
    [where s = sample_state and a = "''STORE_DELHI''" and b = "''ALL''" and c = True
       and d = "'' Blue ''" and lc = codeUnitCompare]
  unfolding filtered_state_eq[symmetric]
  by (simp add: sample_counts sample_aggregates view_lengths)

section \<open>The empty export\<close>

lemma no_match_view: "filteredView lc no_match_state = []"
proof -
  have "applyFilters no_match_state = []" by code_simp
  then show ?thesis by (simp add: filteredView_def array_sort_Nil)
qed

text \<open>
  C6. Exporting an empty view makes no document: \<^verbatim>\<open>downloadCSV\<close> raises the alert
  "No data to export" and returns, which is an ordinary return and not a download of any name
  or content, header-only or other. The Export button does so whenever the filtered view is
  empty. A view that is not empty always gives a download.
\<close>

theorem empty_export_is_notice:
  "downloadCSV ns [] filename = Alert ''No data to export'' \<and>
   (\<forall>name doc. downloadCSV ns [] filename \<noteq> Download name doc) \<and>
   (filteredView lc s = [] \<longrightarrow> exportFiltered lc ns s = Alert ''No data to export'') \<and>
   (data \<noteq> [] \<longrightarrow> downloadCSV ns data filename
      = Download filename (csvText (csvHeaders # map (csvRow ns) data)))"
  by (simp add: downloadCSV_def exportFiltered_def)

theorem empty_export_is_notice_witness:
  "filteredView codeUnitCompare no_match_state = [] \<and>
   exportFiltered codeUnitCompare integerToString no_match_state = Alert ''No data to export''"
  using empty_export_is_notice[where lc = codeUnitCompare and s = no_match_state
      and ns = integerToString]
  by (simp add: no_match_view)

section \<open>The effect leaves its input alone\<close>

lemma readArray_append_old: "a < length h \<Longrightarrow> readArray (h @ [xs]) a = readArray h a"
  by (simp add: readArray_def nth_append)

lemma readArray_append_new: "readArray (h @ [xs]) (length h) = Some xs"
  by (simp add: readArray_def)

text \<open>
  What every statement of the effect keeps: the arrays of the store it started from, and a
  \<^verbatim>\<open>data\<close> that names an array made since.
\<close>

lemma spreadCopy_fresh:
  assumes "readArray h0 r = Some xs"
  shows "\<exists>d h. spreadCopy h0 r = Some (d, h) \<and> readArray h d = Some xs
           \<and> length h0 \<le> d \<and> take (length h0) h = h0"
  using assms by (simp add: spreadCopy_def allocArray_def readArray_append_new)

lemma filterInto_fresh:
  assumes "readArray h d = Some xs" "length h0 \<le> d" "take (length h0) h = h0"
  shows "\<exists>d' h'. filterInto active p (d, h) = Some (d', h')
           \<and> readArray h' d' = Some (if active then filter p xs else xs)
           \<and> length h0 \<le> d' \<and> take (length h0) h' = h0"
proof (cases active)
  case True
  from assms(1) have "d < length h" by (simp add: readArray_def split: if_splits)
  with assms(2) have "length h0 \<le> length h" by simp
  with assms True show ?thesis
    by (simp add: filterInto_def allocArray_def readArray_append_new)
next
  case False
  with assms show ?thesis by (simp add: filterInto_def)
qed

lemma sortInPlace_fresh:
  assumes "readArray h d = Some xs" "length h0 \<le> d" "take (length h0) h = h0"
  shows "\<exists>h'. sortInPlace cmp (d, h) = Some (d, h')
           \<and> readArray h' d = Some (array_sort cmp xs)
           \<and> take (length h0) h' = h0"
proof -
  from assms(1) have "d < length h" by (simp add: readArray_def split: if_splits)
  with assms show ?thesis
    by (simp add: sortInPlace_def writeArray_def readArray_def)
qed

text \<open>
  C9. The filter and sort effect does not change its input. Started on a store in which
  \<^verbatim>\<open>records\<close> names an array, it ends with the filtered, sorted view in an array that is
  not the one \<^verbatim>\<open>records\<close> names; \<^verbatim>\<open>records\<close> still names an array of the same records in
  the same order, and so does every other array the store held before.
\<close>

theorem filter_effect_preserves_input:
  assumes rd: "readArray h recordsRef = Some (records s)"
  shows "\<exists>view h'. filterEffect lc s h recordsRef = Some (view, h') \<and>
           readArray h' view = Some (filteredView lc s) \<and>
           view \<noteq> recordsRef \<and>
           readArray h' recordsRef = Some (records s) \<and>
           take (length h) h' = h"
proof -
  from spreadCopy_fresh[OF rd] obtain d0 h0 where
    s0: "spreadCopy h recordsRef = Some (d0, h0)" and r0: "readArray h0 d0 = Some (records s)"
    and f0: "length h \<le> d0" and k0: "take (length h) h0 = h" by blast
  from filterInto_fresh[OF r0 f0 k0, of "storeActive s" "storeMatches s"] obtain d1 h1 where
    s1: "filterInto (storeActive s) (storeMatches s) (d0, h0) = Some (d1, h1)"
    and r1: "readArray h1 d1 = Some (storeStep s (records s))"
    and f1: "length h \<le> d1" and k1: "take (length h) h1 = h"
    unfolding storeStep_def by blast
  from filterInto_fresh[OF r1 f1 k1, of "categoryActive s" "categoryMatches s"] obtain d2 h2 where
    s2: "filterInto (categoryActive s) (categoryMatches s) (d1, h1) = Some (d2, h2)"
    and r2: "readArray h2 d2 = Some (categoryStep s (storeStep s (records s)))"
    and f2: "length h \<le> d2" and k2: "take (length h) h2 = h"
    unfolding categoryStep_def by blast
  from filterInto_fresh[OF r2 f2 k2, of "criticalActive s" "criticalMatches s"] obtain d3 h3 where
    s3: "filterInto (criticalActive s) (criticalMatches s) (d2, h2) = Some (d3, h3)"
    and r3: "readArray h3 d3 = Some (criticalStep s (categoryStep s (storeStep s (records s))))"
    and f3: "length h \<le> d3" and k3: "take (length h) h3 = h"
    unfolding criticalStep_def by blast
  from filterInto_fresh[OF r3 f3 k3, of "searchActive s" "searchMatches s"] obtain d4 h4 where
    s4: "filterInto (searchActive s) (searchMatches s) (d3, h3) = Some (d4, h4)"
    and r4: "readArray h4 d4 = Some (applyFilters s)"
    and f4: "length h \<le> d4" and k4: "take (length h) h4 = h"
    unfolding searchStep_def applyFilters_def by blast
  from sortInPlace_fresh[OF r4 f4 k4, of "compareFn lc (sortField s) (sortOrder s)"]
  obtain h5 where
    s5: "sortInPlace (compareFn lc (sortField s) (sortOrder s)) (d4, h4) = Some (d4, h5)"
    and r5: "readArray h5 d4 = Some (filteredView lc s)"
    and k5: "take (length h) h5 = h"
    unfolding filteredView_def by blast
  have eff: "filterEffect lc s h recordsRef = Some (d4, h5)"
    by (simp add: filterEffect_def s0 s1 s2 s3 s4 s5)
  from rd have lt: "recordsRef < length h" by (simp add: readArray_def split: if_splits)
  with f4 have ne: "d4 \<noteq> recordsRef" by simp
  from r5 have "d4 < length h5" by (simp add: readArray_def split: if_splits)
  with f4 lt have lt5: "recordsRef < length h5" by simp
  have "h5 ! recordsRef = take (length h) h5 ! recordsRef" using lt by simp
  also have "\<dots> = h ! recordsRef" by (simp add: k5)
  finally have "readArray h5 recordsRef = readArray h recordsRef"
    using lt lt5 by (simp add: readArray_def)
  with rd eff r5 ne k5 show ?thesis by simp
qed

lemma days_effect:
  "filterEffect codeUnitCompare days_state [records days_state] 0
     = Some (1, [[rec_tshirt, rec_jeans, rec_socks, rec_cap, rec_belt],
                 [rec_jeans, rec_socks, rec_belt, rec_tshirt, rec_cap]])"
  by code_simp

theorem filter_effect_preserves_input_witness:
  "readArray [records days_state] 0 = Some (records days_state) \<and>
   filterEffect codeUnitCompare days_state [records days_state] 0
     = Some (1, [[rec_tshirt, rec_jeans, rec_socks, rec_cap, rec_belt],
                 [rec_jeans, rec_socks, rec_belt, rec_tshirt, rec_cap]])"
proof -
  have rd: "readArray [records days_state] 0 = Some (records days_state)"
    by (simp add: readArray_def)
  from filter_effect_preserves_input[OF rd, of codeUnitCompare] rd days_effect
  show ?thesis by simp
qed

section \<open>Properties of the export\<close>

lemma digitChar_0: "digitChar 0 = CHR ''0''"
  by code_simp

lemma digitsOf_small: "n < 10 \<Longrightarrow> digitsOf n = [digitChar n]"
  by (simp add: digitsOf.simps)

lemma digitsOf_large: "10 \<le> n \<Longrightarrow> digitsOf n = digitsOf (n div 10) @ [digitChar (n mod 10)]"
  by (subst digitsOf.simps) simp

lemma length_lowDigits: "length (lowDigits f n) = f"
  by (induction f arbitrary: n) auto

lemma lowDigits_zero: "lowDigits f 0 = replicate f (CHR ''0'')"
  by (induction f) (auto simp: digitChar_0 replicate_append_same)

lemma digitsOf_split: "10 ^ f \<le> n \<Longrightarrow> digitsOf n = digitsOf (n div 10 ^ f) @ lowDigits f n"
proof (induction f arbitrary: n)
  case 0
  show ?case by simp
next
  case (Suc f)
  have "(1::nat) \<le> 10 ^ f" by simp
  then have "(10::nat) \<le> 10 ^ Suc f" by simp
  with Suc.prems have big: "10 \<le> n" by linarith
  from Suc.prems have "10 ^ f \<le> n div 10"
    by (simp add: less_eq_div_iff_mult_less_eq mult.commute)
  from Suc.IH[OF this] have "digitsOf (n div 10) = digitsOf (n div 10 div 10 ^ f) @ lowDigits f (n div 10)" .
  moreover have "n div 10 div 10 ^ f = n div 10 ^ Suc f"
    by (simp add: div_mult2_eq)
  ultimately show ?case
    by (simp add: digitsOf_large[OF big])
qed

lemma length_digitsOf_le: "0 < f \<Longrightarrow> n < 10 ^ f \<Longrightarrow> length (digitsOf n) \<le> f"
proof (induction f arbitrary: n)
  case 0
  then show ?case by simp
next
  case (Suc f)
  show ?case
  proof (cases "n < 10")
    case True
    then show ?thesis by (simp add: digitsOf_small)
  next
    case False
    then have big: "10 \<le> n" by simp
    with Suc.prems have "0 < f" by (cases f) auto
    moreover from Suc.prems have "n div 10 < 10 ^ f"
      by (simp add: less_mult_imp_div_less mult.commute)
    ultimately have "length (digitsOf (n div 10)) \<le> f" by (rule Suc.IH)
    then show ?thesis by (simp add: digitsOf_large[OF big])
  qed
qed

lemma digitsOf_upper: "n < 10 ^ length (digitsOf n)"
proof (induction n rule: digitsOf.induct)
  case (1 n)
  show ?case
  proof (cases "n < 10")
    case True
    then show ?thesis by (simp add: digitsOf_small)
  next
    case False
    then have big: "10 \<le> n" by simp
    from 1[OF False] have "n div 10 < 10 ^ length (digitsOf (n div 10))" .
    then have "n < 10 * 10 ^ length (digitsOf (n div 10))"
      by (simp add: div_less_iff_less_mult mult.commute)
    then show ?thesis by (simp add: digitsOf_large[OF big])
  qed
qed

lemma length_digitsOf_iff: "0 < f \<Longrightarrow> length (digitsOf n) \<le> f \<longleftrightarrow> n < 10 ^ f"
proof
  assume "0 < f" "length (digitsOf n) \<le> f"
  then have "(10::nat) ^ length (digitsOf n) \<le> 10 ^ f" by (simp add: power_increasing)
  with digitsOf_upper[of n] show "n < 10 ^ f" by (rule less_le_trans)
next
  assume "0 < f" "n < 10 ^ f"
  then show "length (digitsOf n) \<le> f" by (rule length_digitsOf_le)
qed

lemma lowDigits_padded:
  "0 < f \<Longrightarrow> n < 10 ^ f \<Longrightarrow>
     lowDigits f n = replicate (f - length (digitsOf n)) (CHR ''0'') @ digitsOf n"
proof (induction f arbitrary: n)
  case 0
  then show ?case by simp
next
  case (Suc f)
  show ?case
  proof (cases "n < 10")
    case True
    then show ?thesis
      by (simp add: digitsOf_small lowDigits_zero)
  next
    case False
    then have big: "10 \<le> n" by simp
    with Suc.prems have f: "0 < f" by (cases f) auto
    from Suc.prems have lt: "n div 10 < 10 ^ f"
      by (simp add: less_mult_imp_div_less mult.commute)
    from Suc.IH[OF f lt] show ?thesis
      by (simp add: digitsOf_large[OF big])
  qed
qed

lemma digitsOf_nonempty: "digitsOf n \<noteq> []"
  by (subst digitsOf.simps) simp

lemma fixedDigits_places:
  assumes f: "0 < f"
  shows "fixedDigits f x
           = (let n = nat \<lfloor>x * 10 ^ f + 1 / 2\<rfloor>
              in digitsOf (n div 10 ^ f) @ ''.'' @ lowDigits f n)"
proof -
  define n where "n = nat \<lfloor>x * 10 ^ f + 1 / 2\<rfloor>"
  define k where "k = length (digitsOf n)"
  have kpos: "0 < k" using digitsOf_nonempty[of n] by (simp add: k_def)
  show ?thesis
  proof (cases "k \<le> f")
    case True
    then have small: "n < 10 ^ f" using length_digitsOf_iff[OF f, of n] by (simp add: k_def)
    then have d0: "digitsOf (n div 10 ^ f) = ''0''" by (simp add: digitsOf_small digitChar_0)
    have pad: "replicate (f + 1 - k) (CHR ''0'') = CHR ''0'' # replicate (f - k) (CHR ''0'')"
      using True by (simp add: Suc_diff_le)
    from True f show ?thesis
      unfolding fixedDigits_def Let_def n_def[symmetric] k_def[symmetric]
      by (simp add: pad d0 lowDigits_padded[OF f small] k_def)
  next
    case False
    then have big: "10 ^ f \<le> n" using length_digitsOf_iff[OF f, of n] by (simp add: k_def)
    define a where "a = digitsOf (n div 10 ^ f)"
    define b where "b = lowDigits f n"
    have m: "digitsOf n = a @ b" unfolding a_def b_def by (rule digitsOf_split[OF big])
    have lb: "length b = f" by (simp add: b_def length_lowDigits)
    have la: "length a = k - f" using m lb by (simp add: k_def)
    have "take (length (digitsOf n) - f) (digitsOf n) = digitsOf (n div 10 ^ f)"
      "drop (length (digitsOf n) - f) (digitsOf n) = lowDigits f n"
      using la unfolding k_def a_def[symmetric] b_def[symmetric] by (simp_all add: m)
    with False f show ?thesis
      unfolding fixedDigits_def Let_def n_def[symmetric] k_def
      by simp
  qed
qed

lemma toFixed_places:
  assumes "0 < f" "\<bar>x\<bar> < 10 ^ 21"
  shows "toFixed ns f (Fin x) = decimalPlaces f x"
  using assms by (simp add: decimalPlaces_def Let_def fixedDigits_places)

lemma decimalPlaces_nonempty: "decimalPlaces f x \<noteq> []"
  by (simp add: decimalPlaces_def Let_def digitsOf_nonempty)

lemma csvRow_length: "length (csvRow ns r) = 9"
  by (simp add: csvRow_def)

lemma csvRow_plain:
  "csvRow ns r ! 0 = sku_id r" "csvRow ns r ! 1 = store_id r" "csvRow ns r ! 5 = status r"
  by (simp_all add: csvRow_def)

lemma csvRow_days_infinite: "days_to_stockout r = Some PInf \<Longrightarrow> csvRow ns r ! 4 = infinityGlyph"
  by (simp add: csvRow_def)

lemma csvRow_days_finite:
  "days_to_stockout r = Some (Fin x) \<Longrightarrow> \<bar>x\<bar> < 10 ^ 21 \<Longrightarrow> csvRow ns r ! 4 = decimalPlaces 1 x"
  by (simp add: csvRow_def toFixed_places orDefault_def decimalPlaces_nonempty del: toFixed.simps)

lemma csvRow_sales_finite:
  "avg_daily_sales r = Some (Fin y) \<Longrightarrow> \<bar>y\<bar> < 10 ^ 21 \<Longrightarrow> csvRow ns r ! 3 = decimalPlaces 2 y"
  by (simp add: csvRow_def toFixed_places orDefault_def decimalPlaces_nonempty del: toFixed.simps)

lemma csvRow_absent:
  "category r = None \<Longrightarrow> csvRow ns r ! 7 = ''-''"
  "city r = None \<Longrightarrow> csvRow ns r ! 8 = ''-''"
  "recommended_reorder_quantity r = None \<Longrightarrow> csvRow ns r ! 6 = ''0''"
  by (simp_all add: csvRow_def)

lemma csvText_unfold:
  "csvText table =
     join [CHR 0x0A]
       (map (\<lambda>row. join '','' (map (\<lambda>cell. [CHR 0x22] @ cell @ [CHR 0x22]) row)) table)"
  by (simp add: csvText_def csvLine_def[abs_def] quoteCell_def[abs_def])

text \<open>
  C5, as the code has it. For a view that is not empty the export is a download whose text is
  the header row and then one row per record, in view order, rows separated by a line feed,
  cells by a comma, every cell between double quotes. The header row is the nine names. In the
  row of a record, \<^verbatim>\<open>days_to_stockout\<close> is the infinity glyph when it is positive
  infinity, and a finite value of magnitude below \<open>10\<^sup>2\<^sup>1\<close> is written to one decimal
  place; a finite \<^verbatim>\<open>avg_daily_sales\<close> of magnitude below \<open>10\<^sup>2\<^sup>1\<close> is written to two
  decimal places; a missing \<^verbatim>\<open>category\<close> or \<^verbatim>\<open>city\<close> is \<^verbatim>\<open>-\<close> and a missing
  \<^verbatim>\<open>recommended_reorder_quantity\<close> is \<^verbatim>\<open>0\<close>.
\<close>

theorem csv_document:
  "(data \<noteq> [] \<longrightarrow>
      downloadCSV ns data filename =
        Download filename
          (join [CHR 0x0A]
             (map (\<lambda>row. join '','' (map (\<lambda>cell. [CHR 0x22] @ cell @ [CHR 0x22]) row))
                (csvHeaders # map (csvRow ns) data)))) \<and>
   csvHeaders = [''SKU'', ''Store'', ''Current Stock'', ''Avg Daily Sales'', ''Days to Stockout'',
                 ''Status'', ''Reorder Qty'', ''Category'', ''City''] \<and>
   length (csvRow ns r) = 9 \<and>
   csvRow ns r ! 0 = sku_id r \<and> csvRow ns r ! 1 = store_id r \<and> csvRow ns r ! 5 = status r \<and>
   (days_to_stockout r = Some PInf \<longrightarrow> csvRow ns r ! 4 = infinityGlyph) \<and>
   (days_to_stockout r = Some (Fin x) \<and> \<bar>x\<bar> < 10 ^ 21 \<longrightarrow> csvRow ns r ! 4 = decimalPlaces 1 x) \<and>
   (avg_daily_sales r = Some (Fin y) \<and> \<bar>y\<bar> < 10 ^ 21 \<longrightarrow> csvRow ns r ! 3 = decimalPlaces 2 y) \<and>
   (category r = None \<longrightarrow> csvRow ns r ! 7 = ''-'') \<and>
   (city r = None \<longrightarrow> csvRow ns r ! 8 = ''-'') \<and>
   (recommended_reorder_quantity r = None \<longrightarrow> csvRow ns r ! 6 = ''0'')"
proof -
  have doc: "data \<noteq> [] \<longrightarrow>
      downloadCSV ns data filename =
        Download filename
          (join [CHR 0x0A]
             (map (\<lambda>row. join '','' (map (\<lambda>cell. [CHR 0x22] @ cell @ [CHR 0x22]) row))
                (csvHeaders # map (csvRow ns) data)))"
    by (simp add: downloadCSV_def csvText_unfold)
  have hd: "csvHeaders = [''SKU'', ''Store'', ''Current Stock'', ''Avg Daily Sales'',
      ''Days to Stockout'', ''Status'', ''Reorder Qty'', ''Category'', ''City'']"
    by (simp add: csvHeaders_def)
  from doc hd csvRow_length[of ns r] csvRow_plain[of ns r] csvRow_days_infinite[of r ns]
    csvRow_days_finite[of r x ns] csvRow_sales_finite[of r y ns] csvRow_absent[of r ns]
  show ?thesis by blast
qed

lemma sample_rows:
  "csvRow integerToString rec_cap
     = [''CAP_BLACK'', ''STORE_DELHI'', ''12'', ''0.00'', infinityGlyph, ''Safe'', ''0'',
        ''Caps'', ''Delhi'']"
  "csvRow integerToString rec_socks
     = [''SOCKS_WHITE'', ''STORE_MUMBAI'', ''4'', ''2.00'', ''2.0'', ''Critical'', ''50'',
        ''-'', ''-'']"
  by code_simp+

lemma sample_places: "decimalPlaces 1 2 = ''2.0''" "decimalPlaces 2 2 = ''2.00''"
  by code_simp+

lemma sample_header_line:
  "take 12 (csvLine csvHeaders)
     = [CHR 0x22, CHR ''S'', CHR ''K'', CHR ''U'', CHR 0x22, CHR '','',
        CHR 0x22, CHR ''S'', CHR ''t'', CHR ''o'', CHR ''r'', CHR ''e'']"
  by code_simp

theorem csv_document_witness:
  "downloadCSV integerToString [rec_cap, rec_socks] ''inventory_export.csv''
     = Download ''inventory_export.csv''
         (csvText [csvHeaders,
            [''CAP_BLACK'', ''STORE_DELHI'', ''12'', ''0.00'', infinityGlyph, ''Safe'', ''0'',
             ''Caps'', ''Delhi''],
            [''SOCKS_WHITE'', ''STORE_MUMBAI'', ''4'', ''2.00'', ''2.0'', ''Critical'', ''50'',
             ''-'', ''-'']]) \<and>
   csvRow integerToString rec_socks ! 4 = ''2.0'' \<and>
   csvRow integerToString rec_socks ! 3 = ''2.00'' \<and>
   csvRow integerToString rec_socks ! 7 = ''-'' \<and>
   take 12 (csvLine csvHeaders)
     = [CHR 0x22, CHR ''S'', CHR ''K'', CHR ''U'', CHR 0x22, CHR '','',
        CHR 0x22, CHR ''S'', CHR ''t'', CHR ''o'', CHR ''r'', CHR ''e'']"
proof -
  have d: "days_to_stockout rec_socks = Some (Fin 2) \<and> \<bar>2::rat\<bar> < 10 ^ 21"
    and a: "avg_daily_sales rec_socks = Some (Fin 2) \<and> \<bar>2::rat\<bar> < 10 ^ 21"
    and c: "category rec_socks = None"
    by (simp_all add: rec_socks_def)
  note doc_facts = csv_document[where data = "[rec_cap, rec_socks]" and ns = integerToString
      and filename = "''inventory_export.csv''" and r = rec_socks and x = 2 and y = 2]
  from doc_facts have "downloadCSV integerToString [rec_cap, rec_socks] ''inventory_export.csv''
      = Download ''inventory_export.csv''
          (csvText (csvHeaders # map (csvRow integerToString) [rec_cap, rec_socks]))"
    unfolding csvText_unfold by blast
  moreover from doc_facts d have "csvRow integerToString rec_socks ! 4 = decimalPlaces 1 2" by blast
  moreover from doc_facts a have "csvRow integerToString rec_socks ! 3 = decimalPlaces 2 2" by blast
  moreover from doc_facts c have "csvRow integerToString rec_socks ! 7 = ''-''" by blast
  ultimately show ?thesis
    by (simp add: sample_rows sample_places sample_header_line)
qed

lemma digit_chars:
  "digitChar 0 = CHR ''0''" "digitChar (Suc 0) = CHR ''1''" "digitChar 1 = CHR ''1''"
  "digitChar 2 = CHR ''2''" "digitChar 3 = CHR ''3''" "digitChar 4 = CHR ''4''"
  "digitChar 5 = CHR ''5''" "digitChar 6 = CHR ''6''" "digitChar 7 = CHR ''7''"
  "digitChar 8 = CHR ''8''" "digitChar 9 = CHR ''9''"
  by code_simp+

text \<open>
  From \<open>10\<^sup>2\<^sup>1\<close> on, \<^verbatim>\<open>toFixed\<close> prints as \<^verbatim>\<open>Number::toString\<close> does, in exponent
  form: the cell of such an \<^verbatim>\<open>avg_daily_sales\<close> has no decimal places.
\<close>

theorem csv_two_decimals_counterexample:
  "avg_daily_sales rec_bulk = Some (Fin (10 ^ 21)) \<and>
   csvRow integerToString rec_bulk ! 3 = ''1e+21'' \<and>
   CHR ''.'' \<notin> set (csvRow integerToString rec_bulk ! 3)"
proof -
  have "toFixed integerToString 2 (Fin (10 ^ 21)) = ''1e+21''"
    by (simp add: digitsOf_small digitsOf_large Let_def exponentForm_def stripTrailingZeros_def digit_chars)
  moreover have "avg_daily_sales rec_bulk = Some (Fin (10 ^ 21))"
    by (simp add: rec_bulk_def)
  ultimately show ?thesis
    by (simp add: csvRow_def orDefault_def del: toFixed.simps)
qed

section \<open>The histogram of Critical records\<close>

text \<open>
  C7 on the code. \<^verbatim>\<open>criticalByStore\<close> is meant to map each store to the number of its
  Critical records. On a snapshot with one Critical record at the store \<^verbatim>\<open>constructor\<close> and
  one at the store \<^verbatim>\<open>__proto__\<close> it holds a string for the first, where the count 1
  belongs, and nothing for the second: the read \<^verbatim>\<open>acc[r.store_id]\<close> finds the property
  the empty object inherits.
\<close>

theorem criticalByStore_inherited_names:
  "map store_id (records inherited_state) = [''constructor'', ''__proto__''] \<and>
   countCritical inherited_state = 2 \<and>
   criticalByStore inherited_state
     = [(''constructor'', PString ''function Object() { [native code] }1'')]"
  by code_simp

lemma map_of_setOwn: "map_of (setOwn k v acc) = (map_of acc)(k \<mapsto> v)"
  by (induction acc) auto

lemma fst_setOwn: "fst ` set (setOwn k v acc) = insert k (fst ` set acc)"
  by (induction acc) auto

lemma distinct_setOwn: "distinct (map fst acc) \<Longrightarrow> distinct (map fst (setOwn k v acc))"
  by (induction acc) (auto simp: fst_setOwn)

lemma criticalByStore_fold:
  assumes "counts c acc"
    and "\<forall>r\<in>set xs. status r = ''Critical'' \<longrightarrow> store_id r \<notin> set (map fst objectPrototype)"
  shows "counts (\<lambda>k. c k + criticalAt k xs)
           (foldl (\<lambda>acc r. if status r = ''Critical''
                     then assign acc (store_id r) (increment acc (store_id r)) else acc) acc xs)"
  using assms
proof (induction xs arbitrary: c acc)
  case Nil
  then show ?case by (simp add: criticalAt_def)
next
  case (Cons r xs)
  show ?case
  proof (cases "status r = ''Critical''")
    case False
    have "(\<lambda>k. c k + criticalAt k (r # xs)) = (\<lambda>k. c k + criticalAt k xs)"
      using False by (simp add: criticalAt_def)
    with Cons False show ?thesis by simp
  next
    case True
    let ?k = "store_id r"
    from Cons.prems True have np: "?k \<notin> set (map fst objectPrototype)" by simp
    then have proto: "map_of objectPrototype ?k = None"
      by (simp add: map_of_eq_None_iff)
    from np have notproto: "?k \<noteq> ''__proto__''" by (auto simp: objectPrototype_def)
    from Cons.prems(1) have inc: "increment acc ?k = PNumber (c ?k + 1)"
      by (simp add: counts_def increment_def proto)
    let ?acc = "assign acc ?k (increment acc ?k)"
    let ?c = "\<lambda>k. if k = ?k then c k + 1 else c k"
    have "counts ?c ?acc"
      using Cons.prems(1) by (auto simp: counts_def assign_def notproto inc map_of_setOwn distinct_setOwn)
    moreover from Cons.prems(2)
    have "\<forall>r\<in>set xs. status r = ''Critical'' \<longrightarrow> store_id r \<notin> set (map fst objectPrototype)"
      by simp
    ultimately have "counts (\<lambda>k. ?c k + criticalAt k xs)
        (foldl (\<lambda>acc r. if status r = ''Critical''
                     then assign acc (store_id r) (increment acc (store_id r)) else acc) ?acc xs)"
      by (rule Cons.IH)
    moreover have "(\<lambda>k. ?c k + criticalAt k xs) = (\<lambda>k. c k + criticalAt k (r # xs))"
      using True by (auto simp: criticalAt_def)
    ultimately show ?thesis using True by simp
  qed
qed

text \<open>
  Away from the inherited names the mapping is the intended one: each store with a Critical
  record appears once, with the number of its Critical records, and no other store appears.
\<close>

lemma criticalByStore_counts:
  assumes "\<forall>r\<in>set (records s). status r = ''Critical''
             \<longrightarrow> store_id r \<notin> set (map fst objectPrototype)"
  shows "distinct (map fst (criticalByStore s))"
    and "map_of (criticalByStore s) k
           = (if criticalAt k (records s) = 0 then None
              else Some (PNumber (criticalAt k (records s))))"
proof -
  have "counts (\<lambda>k. 0) []" by (simp add: counts_def)
  from criticalByStore_fold[OF this assms]
  have "counts (\<lambda>k. criticalAt k (records s)) (criticalByStore s)"
    by (simp add: criticalByStore_def)
  then show "distinct (map fst (criticalByStore s))"
    and "map_of (criticalByStore s) k
           = (if criticalAt k (records s) = 0 then None
              else Some (PNumber (criticalAt k (records s))))"
    by (simp_all add: counts_def)
qed

section \<open>Properties of the fetch\<close>

lemma run_Nil: "run [] = initialPage"
  by (simp add: run_def)

lemma run_snoc: "run (es @ [e]) = step (run es) e"
  by (simp add: run_def)

lemma run_append: "run (es @ es') = foldl step (run es) es'"
  by (simp add: run_def)

lemma length_updateAt: "length (updateAt i f xs) = length xs"
  by (simp add: updateAt_def)

lemma nth_updateAt:
  "j < length xs \<Longrightarrow> updateAt i f xs ! j = (if j = i then f (xs ! j) else xs ! j)"
  by (simp add: updateAt_def)

lemma catchHandler_frame:
  "abortControllerRef (catchHandler n m st) = abortControllerRef st"
  "invocations (catchHandler n m st) = invocations st"
  by (simp_all add: catchHandler_def)

lemma setPhase_frame:
  "abortControllerRef (setPhase i p st) = abortControllerRef st"
  "length (invocations (setPhase i p st)) = length (invocations st)"
  "j < length (invocations st)
     \<Longrightarrow> aborted (invocations (setPhase i p st) ! j) = aborted (invocations st ! j)"
  "visible (setPhase i p st) = visible st"
  by (simp_all add: setPhase_def length_updateAt nth_updateAt visible_def)

lemma fetchSettled_frame:
  "abortControllerRef (fetchSettled i r st) = abortControllerRef st"
  "length (invocations (fetchSettled i r st)) = length (invocations st)"
  "j < length (invocations st)
     \<Longrightarrow> aborted (invocations (fetchSettled i r st) ! j) = aborted (invocations st ! j)"
  by (simp_all add: fetchSettled_def catchHandler_frame setPhase_frame
      split: option.splits fetch_result.splits)

lemma jsonSettled_frame:
  "abortControllerRef (jsonSettled i r st) = abortControllerRef st"
  "length (invocations (jsonSettled i r st)) = length (invocations st)"
  "j < length (invocations st)
     \<Longrightarrow> aborted (invocations (jsonSettled i r st) ! j) = aborted (invocations st ! j)"
  by (simp_all add: jsonSettled_def catchHandler_frame setPhase_frame Let_def
      split: option.splits json_result.splits)

lemma abortCurrent_frame:
  "abortControllerRef (abortCurrent st) = abortControllerRef st"
  "length (invocations (abortCurrent st)) = length (invocations st)"
  "visible (abortCurrent st) = visible st"
  by (simp_all add: abortCurrent_def length_updateAt visible_def split: option.splits)

lemma abortCurrent_aborted:
  "j < length (invocations st) \<Longrightarrow>
     aborted (invocations (abortCurrent st) ! j)
       = (aborted (invocations st ! j) \<or> abortControllerRef st = Some j)"
  by (auto simp: abortCurrent_def nth_updateAt split: option.splits)

lemma invariant_initial: "fetch_invariant initialPage"
  by (simp add: fetch_invariant_def initialPage_def)

lemma invariant_abortCurrent: "fetch_invariant st \<Longrightarrow> fetch_invariant (abortCurrent st)"
  by (auto simp: fetch_invariant_def abortCurrent_frame abortCurrent_aborted split: option.splits)

lemma invariant_fetchSettled: "fetch_invariant st \<Longrightarrow> fetch_invariant (fetchSettled i r st)"
  by (simp add: fetch_invariant_def fetchSettled_frame)

lemma invariant_jsonSettled: "fetch_invariant st \<Longrightarrow> fetch_invariant (jsonSettled i r st)"
  by (simp add: fetch_invariant_def jsonSettled_frame)

lemma callFetchData_ref:
  "abortControllerRef (callFetchData st) = Some (length (invocations st))"
  "length (invocations (callFetchData st)) = Suc (length (invocations st))"
  by (simp_all add: callFetchData_def Let_def abortCurrent_frame)

lemma callFetchData_aborted:
  "j < length (invocations st) \<Longrightarrow>
     aborted (invocations (callFetchData st) ! j)
       = (aborted (invocations st ! j) \<or> abortControllerRef st = Some j)"
  by (simp add: callFetchData_def Let_def abortCurrent_frame abortCurrent_aborted nth_append)

lemma invariant_callFetchData:
  assumes "fetch_invariant st"
  shows "fetch_invariant (callFetchData st)"
  unfolding fetch_invariant_def
proof (intro conjI allI impI)
  show "length (invocations (callFetchData st))
          = (case abortControllerRef (callFetchData st) of None \<Rightarrow> 0 | Some c \<Rightarrow> Suc c)"
    by (simp add: callFetchData_ref)
next
  fix i
  assume i: "i < length (invocations (callFetchData st))"
    and ne: "abortControllerRef (callFetchData st) \<noteq> Some i"
  then have lt: "i < length (invocations st)" by (simp add: callFetchData_ref)
  with assms have "aborted (invocations st ! i) \<or> abortControllerRef st = Some i"
    by (auto simp: fetch_invariant_def)
  with lt show "aborted (invocations (callFetchData st) ! i)"
    by (simp add: callFetchData_aborted)
qed

lemma invariant_step: "fetch_invariant st \<Longrightarrow> fetch_invariant (step st e)"
  by (cases e)
    (simp_all add: invariant_callFetchData invariant_fetchSettled invariant_jsonSettled
      invariant_abortCurrent)

lemma invariant_foldl: "fetch_invariant st \<Longrightarrow> fetch_invariant (foldl step st es)"
  by (induction es arbitrary: st) (simp_all add: invariant_step)

lemma invariant_run: "fetch_invariant (run es)"
  unfolding run_def by (rule invariant_foldl[OF invariant_initial])

lemma length_step: "length (invocations st) \<le> length (invocations (step st e))"
  by (cases e) (simp_all add: callFetchData_ref fetchSettled_frame jsonSettled_frame abortCurrent_frame)

lemma length_foldl: "length (invocations st) \<le> length (invocations (foldl step st es))"
proof (induction es arbitrary: st)
  case Nil
  show ?case by simp
next
  case (Cons e es)
  have "length (invocations st) \<le> length (invocations (step st e))" by (rule length_step)
  also have "\<dots> \<le> length (invocations (foldl step (step st e) es))" by (rule Cons.IH)
  finally show ?case by simp
qed

lemma stale_fetchSettled:
  assumes inv: "fetch_invariant st" and ne: "abortControllerRef st \<noteq> Some i"
  shows "visible (fetchSettled i r st) = visible st"
proof (cases "i < length (invocations st)")
  case False
  then show ?thesis by (simp add: fetchSettled_def lookupAt_def)
next
  case True
  with inv ne have "aborted (invocations st ! i)" by (simp add: fetch_invariant_def)
  with True show ?thesis
    by (simp add: fetchSettled_def lookupAt_def deliveredFetch_def catchHandler_def
        setPhase_frame)
qed

lemma stale_jsonSettled:
  assumes inv: "fetch_invariant st" and ne: "abortControllerRef st \<noteq> Some i"
  shows "visible (jsonSettled i r st) = visible st"
proof (cases "i < length (invocations st)")
  case False
  then show ?thesis by (simp add: jsonSettled_def lookupAt_def)
next
  case True
  with inv ne have "aborted (invocations st ! i)" by (simp add: fetch_invariant_def)
  with True show ?thesis
    by (simp add: jsonSettled_def lookupAt_def deliveredJson_def catchHandler_def
        setPhase_frame)
qed

text \<open>
  C4. Let a call R1 of \<^verbatim>\<open>fetchData\<close> be the one whose controller is in the ref, and let a
  second call R2 start. At that step R1's signal is aborted and the ref names R2. From then
  on, whatever steps follow, when a promise of R1 settles (the response or the body, with
  whatever the network had) the records, the date, the spinner and the error are as they were
  before: R1 writes nothing over what later calls have set, and its cancellation sets no
  error.
\<close>

theorem superseded_fetch_is_discarded:
  assumes r1: "abortControllerRef (run es) = Some i"
  shows "aborted (invocations (run (es @ [CallFetchData])) ! i) \<and>
         abortControllerRef (run (es @ [CallFetchData])) = Some (Suc i) \<and>
         visible (step (run (es @ CallFetchData # es')) (FetchSettles i r))
           = visible (run (es @ CallFetchData # es')) \<and>
         visible (step (run (es @ CallFetchData # es')) (JsonSettles i j))
           = visible (run (es @ CallFetchData # es'))"
proof -
  let ?before = "run es"
  let ?started = "run (es @ [CallFetchData])"
  let ?later = "run (es @ CallFetchData # es')"
  have inv0: "fetch_invariant ?before" by (rule invariant_run)
  with r1 have len0: "Suc i = length (invocations ?before)" by (simp add: fetch_invariant_def)
  have st1: "?started = callFetchData ?before" by (simp add: run_snoc)
  have ab: "aborted (invocations ?started ! i)"
    using len0 r1 by (simp add: st1 callFetchData_aborted)
  have ref1: "abortControllerRef ?started = Some (Suc i)"
    using len0 by (simp add: st1 callFetchData_ref)
  have st: "?later = foldl step ?started es'"
    by (simp add: run_def)
  have "length (invocations ?started) \<le> length (invocations ?later)"
    unfolding st by (rule length_foldl)
  then have len: "Suc (Suc i) \<le> length (invocations ?later)"
    using len0 by (simp add: st1 callFetchData_ref)
  have inv: "fetch_invariant ?later" by (rule invariant_run)
  have ne: "abortControllerRef ?later \<noteq> Some i"
  proof
    assume cur: "abortControllerRef ?later = Some i"
    from inv have "length (invocations ?later)
        = (case abortControllerRef ?later of None \<Rightarrow> 0 | Some c \<Rightarrow> Suc c)"
      by (simp add: fetch_invariant_def)
    with cur have "length (invocations ?later) = Suc i" by simp
    with len show False by simp
  qed
  from ab ref1 stale_fetchSettled[OF inv ne, of r] stale_jsonSettled[OF inv ne, of j]
  show ?thesis by simp
qed

lemma trace_current: "abortControllerRef (run [CallFetchData, FetchSettles 0 (Response 200)]) = Some 0"
  by code_simp

lemma trace_second:
  "visible (run ([CallFetchData, FetchSettles 0 (Response 200)] @ CallFetchData #
       [FetchSettles 1 (Response 200), JsonSettles 1 (Parsed second_payload)]))
     = ([rec_cap], Some ''2024-01-01T10:05:00'', False, None)"
  by code_simp

lemma trace_alone:
  "visible (run [CallFetchData, FetchSettles 0 (Response 200), JsonSettles 0 (Parsed first_payload)])
     = ([rec_tshirt, rec_jeans], Some ''2024-01-01T10:00:00'', False, None)"
  "visible (run [CallFetchData, FetchSettles 0 (Response 500)])
     = ([], None, False, Some ''API error: 500'')"
  "visible (run [CallFetchData, FetchSettles 0 (FetchRejected ''TypeError'' ''Failed to fetch'')])
     = ([], None, False, Some ''Failed to fetch'')"
  by code_simp+

theorem superseded_fetch_is_discarded_witness:
  "abortControllerRef (run [CallFetchData, FetchSettles 0 (Response 200)]) = Some 0 \<and>
   visible (step (run ([CallFetchData, FetchSettles 0 (Response 200)] @ CallFetchData #
       [FetchSettles 1 (Response 200), JsonSettles 1 (Parsed second_payload)]))
      (JsonSettles 0 (Parsed first_payload)))
     = ([rec_cap], Some ''2024-01-01T10:05:00'', False, None) \<and>
   visible (run [CallFetchData, FetchSettles 0 (Response 200), JsonSettles 0 (Parsed first_payload)])
     = ([rec_tshirt, rec_jeans], Some ''2024-01-01T10:00:00'', False, None) \<and>
   visible (run [CallFetchData, FetchSettles 0 (Response 500)])
     = ([], None, False, Some ''API error: 500'')"
  using superseded_fetch_is_discarded[OF trace_current,
      of "[FetchSettles 1 (Response 200), JsonSettles 1 (Parsed second_payload)]"
         "Response 200" "Parsed first_payload"]
    trace_current trace_second trace_alone
  by simp

end
